theory Spec2Isabelle
  imports Main "HOL-Library.Sublist" "HOL-Library.AList"
begin

text \<open>
  A model of \<^verbatim>\<open>dl.py\<close>, the script that downloads the external assets referenced by
  the HTML and CSS files of a project and rewrites the references to the local copies.
  The functions of the script keep their names. What the script reads from its
  surroundings is explicit: the network and two choices of the Python run time are a
  parameter (\<open>env\<close>), the files and directories below the project root, the requests
  sent and the lines printed are a state that every function takes and returns. An
  exception that the script does not catch is a result \<open>Inl\<close>.

  The model takes \<open>os.path\<close> to be \<open>posixpath\<close>, file names to be case sensitive, the
  tree to have no symbolic links, and every document to be text that \<open>open\<close> can decode.
\<close>

section \<open>Strings as Python uses them\<close>

text \<open>
  Document text, URLs and file names are \<open>string\<close>s. Only the ASCII letters have a
  case; every other character is its own lower-case form. A Python \<open>str\<close> of ASCII
  text behaves in this way under \<open>str.lower\<close>, \<open>re.IGNORECASE\<close> and \<open>str.isspace\<close>.
\<close>

definition ascii_upper :: string where
  "ascii_upper = ''ABCDEFGHIJKLMNOPQRSTUVWXYZ''"

definition ascii_lower :: string where
  "ascii_lower = ''abcdefghijklmnopqrstuvwxyz''"

definition ascii_digits :: string where
  "ascii_digits = ''0123456789''"

definition lower_chr :: "char \<Rightarrow> char" where
  "lower_chr c = (case map_of (zip ascii_upper ascii_lower) c of Some d \<Rightarrow> d | None \<Rightarrow> c)"

text \<open>\<open>str.lower()\<close>\<close>

definition lower_str :: "string \<Rightarrow> string" where
  "lower_str s = map lower_chr s"

text \<open>\<open>str.isspace()\<close> on one character, which is also what \<open>\s\<close> matches.\<close>

definition is_space :: "char \<Rightarrow> bool" where
  "is_space c = (c \<in> set [CHR 0x09, CHR 0x0A, CHR 0x0B, CHR 0x0C, CHR 0x0D,
                           CHR 0x1C, CHR 0x1D, CHR 0x1E, CHR 0x1F, CHR 0x20])"

text \<open>\<open>s.strip()\<close> and \<open>s.strip('.')\<close>\<close>

definition strip_by :: "(char \<Rightarrow> bool) \<Rightarrow> string \<Rightarrow> string" where
  "strip_by P s = rev (dropWhile P (rev (dropWhile P s)))"

text \<open>\<open>s.split(c)\<close> for a separator of one character: never an empty list.\<close>

fun split_on :: "char \<Rightarrow> string \<Rightarrow> string list" where
  "split_on c [] = [[]]"
| "split_on c (x # xs) =
     (if x = c then [] # split_on c xs
      else (case split_on c xs of [] \<Rightarrow> [[x]] | piece # pieces \<Rightarrow> (x # piece) # pieces))"

text \<open>
  \<open>s.replace(old, new)\<close>: the occurrences of \<open>old\<close> are found from the left and do
  not overlap; text produced by a replacement is not scanned again.
\<close>

function str_replace :: "string \<Rightarrow> string \<Rightarrow> string \<Rightarrow> string" where
  "str_replace old new [] = (if old = [] then new else [])"
| "str_replace old new (c # cs) =
     (if old = [] then new @ c # str_replace old new cs
      else if prefix old (c # cs) then new @ str_replace old new (drop (length old) (c # cs))
      else c # str_replace old new cs)"
  by pat_completeness auto
termination
  by (relation "measure (\<lambda>(old, new, s). length s)") (auto simp: neq_Nil_conv)

section \<open>Regular expressions with Python's backtracking order\<close>

text \<open>
  The five compiled patterns of the program use literals, character classes, sequence,
  alternation, an optional item and greedy repetition of one character class; all are
  compiled with \<open>re.IGNORECASE\<close>.
\<close>

datatype atom =
    Chr char
  | In "char list"
  | NotIn "char list"
  | Space

datatype re =
    Eps
  | A atom
  | Seq re re
  | Alt re re
  | Opt re
  | Plus atom
  | Star atom

fun atom_ok :: "atom \<Rightarrow> char \<Rightarrow> bool" where
  "atom_ok (Chr d) c = (lower_chr c = lower_chr d)"
| "atom_ok (In ds) c = (lower_chr c \<in> set (map lower_chr ds))"
| "atom_ok (NotIn ds) c = (lower_chr c \<notin> set (map lower_chr ds))"
| "atom_ok Space c = is_space c"

text \<open>
  \<open>greedy a s\<close>: the remainders of \<open>s\<close> after one or more characters matching \<open>a\<close>,
  the longest match first, as a greedy \<open>+\<close> backtracks.
\<close>

fun greedy :: "atom \<Rightarrow> string \<Rightarrow> string list" where
  "greedy a [] = []"
| "greedy a (c # cs) = (if atom_ok a c then greedy a cs @ [cs] else [])"

text \<open>
  \<open>ms r s\<close>: the remainders of \<open>s\<close> after each way \<open>r\<close> matches a prefix of \<open>s\<close>,
  in the order in which the backtracking matcher tries them.
\<close>

fun ms :: "re \<Rightarrow> string \<Rightarrow> string list" where
  "ms Eps s = [s]"
| "ms (A a) s = (case s of [] \<Rightarrow> [] | c # cs \<Rightarrow> if atom_ok a c then [cs] else [])"
| "ms (Seq r1 r2) s = concat (map (ms r2) (ms r1 s))"
| "ms (Alt r1 r2) s = ms r1 s @ ms r2 s"
| "ms (Opt r) s = ms r s @ [s]"
| "ms (Plus a) s = greedy a s"
| "ms (Star a) s = greedy a s @ [s]"

text \<open>
  A pattern with one capturing group: what stands before the group, the group, and what
  stands after it.
\<close>

type_synonym pattern = "re \<times> re \<times> re"

text \<open>
  The first match of a pattern at the start of \<open>s\<close>: the text of group 1 and the number
  of characters the whole match consumed.
\<close>

definition match_at :: "pattern \<Rightarrow> string \<Rightarrow> (string \<times> nat) option" where
  "match_at p s =
     (case p of (pre, grp, post) \<Rightarrow>
        (case concat (map (\<lambda>r1. concat (map (\<lambda>r2. map (\<lambda>r3.
                 (take (length r1 - length r2) r1, length s - length r3)) (ms post r2))
               (ms grp r1))) (ms pre s)) of
           [] \<Rightarrow> None
         | m # _ \<Rightarrow> Some m))"

text \<open>
  \<open>pattern.findall(s)\<close>: scan from the left; at a match keep group 1 and go on after the
  match, otherwise go on one character further. The counter is the number of characters
  of the last match that are still to be skipped.
\<close>

fun findall_from :: "pattern \<Rightarrow> nat \<Rightarrow> string \<Rightarrow> string list" where
  "findall_from p (Suc k) [] = []"
| "findall_from p (Suc k) (c # cs) = findall_from p k cs"
| "findall_from p 0 [] = (case match_at p [] of Some (g, n) \<Rightarrow> [g] | None \<Rightarrow> [])"
| "findall_from p 0 (c # cs) =
     (case match_at p (c # cs) of
        Some (g, n) \<Rightarrow> g # findall_from p (n - 1) cs
      | None \<Rightarrow> findall_from p 0 cs)"

definition findall :: "pattern \<Rightarrow> string \<Rightarrow> string list" where
  "findall p s = findall_from p 0 s"

subsection \<open>The patterns of the program\<close>

definition image_extensions :: "string list" where
  "image_extensions = [''.svg'', ''.jpg'', ''.jpeg'', ''.png'', ''.gif'', ''.webp'',
                       ''.ico'', ''.bmp'', ''.avif'']"

definition font_extensions :: "string list" where
  "font_extensions = [''.woff'', ''.woff2'']"

definition pdf_extensions :: "string list" where
  "pdf_extensions = [''.pdf'']"

definition video_extensions :: "string list" where
  "video_extensions = [''.webm'']"

text \<open>A literal word, and \<open>'|'.join(ext.strip('.') for ext in exts)\<close>.\<close>

fun lits :: "string \<Rightarrow> re" where
  "lits [] = Eps"
| "lits (c # cs) = Seq (A (Chr c)) (lits cs)"

fun alts :: "string list \<Rightarrow> re" where
  "alts [] = Eps"
| "alts [w] = lits w"
| "alts (w # ws) = Alt (lits w) (alts ws)"

definition ext_alts :: "string list \<Rightarrow> re" where
  "ext_alts exts = alts (map (strip_by (\<lambda>c. c = CHR ''.'')) exts)"

text \<open>
  The URL group that the HTML and CSS patterns share:
  \<^verbatim>\<open>https?://[^...]+\.(?:svg|jpg|...)\<close>, with the atom for the \<open>s\<close> and the excluded
  characters as they are written in each pattern.
\<close>

definition url_group :: "atom \<Rightarrow> char list \<Rightarrow> string list \<Rightarrow> re" where
  "url_group s excl exts =
     Seq (lits ''http'') (Seq (Opt (A s)) (Seq (lits ''://'')
       (Seq (Plus (NotIn excl)) (Seq (A (Chr CHR ''.'')) (ext_alts exts)))))"

text \<open>\<^verbatim>\<open>(https?://[^"'>]+\.(?:svg|jpg|...))\<close>\<close>

definition html_excluded :: "char list" where
  "html_excluded = [CHR 0x22, CHR 0x27, CHR ''>'']"

definition html_pattern :: "string list \<Rightarrow> pattern" where
  "html_pattern exts = (Eps, url_group (Chr CHR ''s'') html_excluded exts, Eps)"

definition html_img_pattern :: pattern where
  "html_img_pattern = html_pattern image_extensions"

definition html_pdf_pattern :: pattern where
  "html_pdf_pattern = html_pattern pdf_extensions"

definition html_video_pattern :: pattern where
  "html_video_pattern = html_pattern video_extensions"

text \<open>\<^verbatim>\<open>srcset\s*=\s*"([^"]+)"\<close>\<close>

definition srcset_pattern :: pattern where
  "srcset_pattern =
     (Seq (lits ''srcset'') (Seq (Star Space) (Seq (A (Chr CHR ''='')) (Seq (Star Space)
        (A (Chr CHR 0x22))))),
      Plus (NotIn [CHR 0x22]),
      A (Chr CHR 0x22))"

text \<open>\<^verbatim>\<open>url\(["']?(http[s]?://[^"')]+\.(?:svg|...|woff|woff2))["']?\)\<close>\<close>

definition css_excluded :: "char list" where
  "css_excluded = [CHR 0x22, CHR 0x27, CHR '')'']"

definition css_asset_pattern :: pattern where
  "css_asset_pattern =
     (Seq (lits ''url('') (Opt (A (In [CHR 0x22, CHR 0x27]))),
      url_group (In [CHR ''s'']) css_excluded (image_extensions @ font_extensions),
      Seq (Opt (A (In [CHR 0x22, CHR 0x27]))) (A (Chr CHR '')'')))"

section \<open>URLs and paths\<close>

text \<open>
  The exceptions that end a run: \<open>ValueError\<close> from \<open>urlparse\<close>, and \<open>OSError\<close> from
  \<open>open\<close> and \<open>os.makedirs\<close>. The script catches \<open>requests.RequestException\<close> only.
\<close>

datatype error = ValueError | OSError

text \<open>
  The world outside the program. \<open>net env k url\<close> is what \<open>requests.get(url, stream=True,
  timeout=10)\<close> does when \<open>k\<close> requests have been made before it; \<open>set_order env\<close> is the
  order in which Python iterates over \<open>set(matches)\<close>; \<open>netloc_ok env\<close> is the check
  of the network location by \<open>urllib.parse.urlsplit\<close>, which raises \<open>ValueError\<close> where
  the check fails (which network locations are refused depends on the version of the
  library); \<open>walk_order env\<close> is the order in which \<open>os.walk\<close> comes to the directories
  below the root, which the file system decides.
\<close>

datatype response =
    RequestException
  | Response nat "string list" bool

text \<open>
  \<open>Response status chunks complete\<close>: the status code, the chunks that
  \<open>iter_content(1024)\<close> delivers, and whether the stream ends normally after them
  (otherwise it raises a \<open>RequestException\<close> after the last of these chunks).
\<close>

record env =
  net :: "nat \<Rightarrow> string \<Rightarrow> response"
  set_order :: "string list \<Rightarrow> string list"
  netloc_ok :: "string \<Rightarrow> bool"
  walk_order :: "string list list \<Rightarrow> string list list"

text \<open>
  The check that every version of CPython makes: a bracket in the network location has
  its partner (versions from 3.11.4 on refuse more).
\<close>

definition brackets_ok :: "string \<Rightarrow> bool" where
  "brackets_ok netloc = ((CHR ''['' \<in> set netloc) = (CHR '']'' \<in> set netloc))"

definition scheme_chars :: string where
  "scheme_chars = ascii_lower @ ascii_upper @ ascii_digits @ ''+-.''"

definition uses_params :: "string list" where
  "uses_params = [[], ''ftp'', ''hdl'', ''prospero'', ''http'', ''imap'', ''https'',
                  ''shttp'', ''rtsp'', ''rtspu'', ''sip'', ''sips'', ''mms'', ''sftp'', ''tftp'']"

text \<open>The scheme and what follows its colon, as \<open>urlsplit\<close> separates them.\<close>

definition split_scheme :: "string \<Rightarrow> string \<times> string" where
  "split_scheme url =
     (let pre = takeWhile (\<lambda>c. c \<noteq> CHR '':'') url in
      if CHR '':'' \<in> set url \<and> pre \<noteq> [] \<and> hd pre \<in> set (ascii_lower @ ascii_upper)
         \<and> list_all (\<lambda>c. c \<in> set scheme_chars) pre
      then (lower_str pre, drop (Suc (length pre)) url)
      else ([], url))"

text \<open>\<open>_splitparams\<close>: a \<open>;\<close> in the last segment of the path starts the parameters.\<close>

definition last_segment :: "string \<Rightarrow> string" where
  "last_segment p = rev (takeWhile (\<lambda>c. c \<noteq> CHR ''/'') (rev p))"

definition split_params :: "string \<Rightarrow> string" where
  "split_params p =
     (if CHR ''/'' \<in> set p then
        (let seg = last_segment p in
         if CHR '';'' \<in> set seg
         then take (length p - length seg) p @ takeWhile (\<lambda>c. c \<noteq> CHR '';'') seg
         else p)
      else takeWhile (\<lambda>c. c \<noteq> CHR '';'') p)"

text \<open>
  \<open>urlparse(url)\<close>, as in CPython 3.11.4 and later: leading control characters and spaces are
  stripped, tabs and line breaks are removed, then the scheme, the network location, the
  fragment, the query and the parameters are split off in this order. \<open>url_netloc\<close> is
  the network location, if the URL has one, and \<open>url_path\<close> the path.
\<close>

definition url_rest :: "string \<Rightarrow> string" where
  "url_rest url =
     snd (split_scheme (filter (\<lambda>c. c \<notin> set [CHR 0x09, CHR 0x0D, CHR 0x0A])
                          (dropWhile (\<lambda>c. of_char c \<le> (32::nat)) url)))"

definition url_scheme :: "string \<Rightarrow> string" where
  "url_scheme url =
     fst (split_scheme (filter (\<lambda>c. c \<notin> set [CHR 0x09, CHR 0x0D, CHR 0x0A])
                          (dropWhile (\<lambda>c. of_char c \<le> (32::nat)) url)))"

definition url_netloc :: "string \<Rightarrow> string option" where
  "url_netloc url =
     (let rest = url_rest url in
      if take 2 rest = ''//''
      then Some (takeWhile (\<lambda>c. c \<notin> set ''/?#'') (drop 2 rest))
      else None)"

definition url_path :: "string \<Rightarrow> string" where
  "url_path url =
     (let rest = url_rest url;
          rest1 = (if take 2 rest = ''//''
                   then dropWhile (\<lambda>c. c \<notin> set ''/?#'') (drop 2 rest) else rest);
          rest2 = takeWhile (\<lambda>c. c \<noteq> CHR ''#'') rest1;
          rest3 = takeWhile (\<lambda>c. c \<noteq> CHR ''?'') rest2
      in if url_scheme url \<in> set uses_params \<and> CHR '';'' \<in> set rest3
         then split_params rest3
         else rest3)"

text \<open>\<open>urlparse(url).path\<close>, or the \<open>ValueError\<close> of \<open>urlsplit\<close>.\<close>

definition urlparse_path :: "env \<Rightarrow> string \<Rightarrow> error + string" where
  "urlparse_path env url =
     (case url_netloc url of
        None \<Rightarrow> Inr (url_path url)
      | Some netloc \<Rightarrow> if netloc_ok env netloc then Inr (url_path url) else Inl ValueError)"

text \<open>\<open>os.path.basename\<close> and the extension of \<open>os.path.splitext\<close> (POSIX).\<close>

definition basename :: "string \<Rightarrow> string" where
  "basename p = last_segment p"

definition splitext_ext :: "string \<Rightarrow> string" where
  "splitext_ext p =
     (let base = basename p;
          ext = CHR ''.'' # rev (takeWhile (\<lambda>c. c \<noteq> CHR ''.'') (rev base));
          stem = take (length base - length ext) base
      in if CHR ''.'' \<in> set base \<and> list_ex (\<lambda>c. c \<noteq> CHR ''.'') stem then ext else [])"

text \<open>
  Paths on disk are lists of components below the project root: \<open>[]\<close> is the project
  root, \<open>os.path.join(folder, name)\<close> for a name without separator is \<open>folder @ [name]\<close>.
\<close>

type_synonym path = "string list"

definition assets_folder :: path where
  "assets_folder = [''assets'']"

definition fonts_folder :: path where
  "fonts_folder = assets_folder @ [''fonts'']"

text \<open>
  The directory a path names: empty components and \<open>.\<close> are dropped, \<open>..\<close> goes to the
  parent (and stays at the top when there is none).
\<close>

fun norm_acc :: "path \<Rightarrow> path \<Rightarrow> path" where
  "norm_acc acc [] = rev acc"
| "norm_acc acc (c # cs) =
     (if c = [] \<or> c = ''.'' then norm_acc acc cs
      else if c = ''..'' then norm_acc (tl acc) cs
      else norm_acc (c # acc) cs)"

definition normpath :: "path \<Rightarrow> path" where
  "normpath p = norm_acc [] p"

fun slash_join :: "path \<Rightarrow> string" where
  "slash_join [] = []"
| "slash_join [c] = c"
| "slash_join (c # d # cs) = c @ CHR ''/'' # slash_join (d # cs)"

text \<open>\<open>os.path.relpath(p, project_root)\<close>\<close>

definition relpath :: "path \<Rightarrow> string" where
  "relpath p = (case normpath p of [] \<Rightarrow> ''.'' | c # cs \<Rightarrow> slash_join (c # cs))"

section \<open>The state of the run\<close>

datatype message =
    AlreadyExists string
  | Downloaded string
  | FailedStatus nat string
  | RequestFailed string
  | Updated path

text \<open>
  \<open>dirs\<close>: the directories below the project root; \<open>files\<close>: the files with their contents, in the order in which a directory
  lists them; \<open>requests\<close>: the URLs fetched so far; \<open>out\<close>: the lines printed so far.
\<close>

record state =
  dirs :: "path list"
  files :: "(path \<times> string) list"
  requests :: "string list"
  out :: "message list"

definition is_dir :: "state \<Rightarrow> path \<Rightarrow> bool" where
  "is_dir st p = (p = [] \<or> p \<in> set (dirs st))"

text \<open>\<open>os.path.exists\<close>\<close>

definition path_exists :: "state \<Rightarrow> path \<Rightarrow> bool" where
  "path_exists st p = (is_dir st (normpath p) \<or> map_of (files st) (normpath p) \<noteq> None)"

section \<open>download_file\<close>

definition name_chars :: string where
  "name_chars = ascii_upper @ ascii_lower @ ascii_digits @ ''._-''"

text \<open>\<^verbatim>\<open>re.sub(r'[^A-Za-z0-9._-]', '', file_name)\<close>\<close>

definition strip_special :: "string \<Rightarrow> string" where
  "strip_special s = filter (\<lambda>c. c \<in> set name_chars) s"

text \<open>The file name that \<open>download_file\<close> derives from the URL (lines 47 to 53).\<close>

definition file_name_of :: "env \<Rightarrow> string \<Rightarrow> error + string" where
  "file_name_of env file_url =
     (case urlparse_path env (str_replace ''%20'' [] file_url) of
        Inl e \<Rightarrow> Inl e
      | Inr p \<Rightarrow> Inr (strip_special (str_replace ''%20'' [] (basename p))))"

text \<open>
  \<open>download_file\<close> (lines 41 to 71). The result is the returned value, \<open>None\<close> or the
  path, with the new state. \<open>open(local_path, "wb")\<close> creates the file where the target
  folder is a directory and the name is a name proper, and raises otherwise; the chunks
  are written as they arrive, so a stream that breaks leaves the file with the chunks
  received before.
\<close>

definition download_file ::
  "env \<Rightarrow> string \<Rightarrow> path \<Rightarrow> state \<Rightarrow> error + (string option \<times> state)" where
  "download_file env file_url target_folder st =
     (case file_name_of env file_url of
        Inl e \<Rightarrow> Inl e
      | Inr file_name \<Rightarrow>
          (let local_path = target_folder @ [file_name] in
           if path_exists st local_path then
             Inr (Some (relpath local_path), st\<lparr>out := out st @ [AlreadyExists file_name]\<rparr>)
           else
             (let st1 = st\<lparr>requests := requests st @ [file_url]\<rparr> in
              case net env (length (requests st)) file_url of
                RequestException \<Rightarrow>
                  Inr (None, st1\<lparr>out := out st1 @ [RequestFailed file_url]\<rparr>)
              | Response status chunks complete \<Rightarrow>
                  if status = 200 then
                    (if is_dir st (normpath target_folder)
                        \<and> file_name \<notin> set [[], ''.'', ''..'']
                     then
                       (let st2 = st1\<lparr>files :=
                              AList.update (normpath local_path) (concat chunks) (files st1)\<rparr> in
                        if complete
                        then Inr (Some (relpath local_path),
                                  st2\<lparr>out := out st2 @ [Downloaded file_name]\<rparr>)
                        else Inr (None, st2\<lparr>out := out st2 @ [RequestFailed file_url]\<rparr>))
                     else Inl OSError)
                  else Inr (None, st1\<lparr>out := out st1 @ [FailedStatus status file_url]\<rparr>))))"

section \<open>Rewriting the references of one document\<close>

text \<open>A \<open>for\<close> loop over a list whose body may raise: the first error ends the loop.\<close>

fun for_each :: "('a \<Rightarrow> 'b \<Rightarrow> error + 'b) \<Rightarrow> 'a list \<Rightarrow> 'b \<Rightarrow> error + 'b" where
  "for_each body [] acc = Inr acc"
| "for_each body (x # xs) acc =
     (case body x acc of Inl e \<Rightarrow> Inl e | Inr acc' \<Rightarrow> for_each body xs acc')"

text \<open>
  \<open>ext = os.path.splitext(urlparse(url).path)[1].lower()\<close> and
  \<open>folder = fonts_folder if ext in font_extensions else assets_folder\<close>
\<close>

definition folder_for :: "env \<Rightarrow> string \<Rightarrow> error + path" where
  "folder_for env url =
     (case urlparse_path env url of
        Inl e \<Rightarrow> Inl e
      | Inr p \<Rightarrow>
          Inr (if lower_str (splitext_ext p) \<in> set font_extensions
               then fonts_folder else assets_folder))"

text \<open>\<open>local_path.replace('\\', '/')\<close>\<close>

definition fwd_slashes :: "string \<Rightarrow> string" where
  "fwd_slashes p = str_replace [CHR 0x5C] ''/'' p"

text \<open>
  The candidates of the srcset pass: for every match of the srcset pattern and every
  part between its commas, \<open>part.strip().split(' ')[0]\<close>.
\<close>

definition srcset_urls :: "string \<Rightarrow> string list" where
  "srcset_urls content =
     concat (map (\<lambda>m. map (\<lambda>part. takeWhile (\<lambda>c. c \<noteq> CHR '' '') (strip_by is_space part))
                        (split_on CHR '','' m))
                 (findall srcset_pattern content))"

text \<open>The body of the inner loop of \<open>replace_urls_in_srcset\<close> (lines 79 to 85).\<close>

definition srcset_step :: "env \<Rightarrow> string \<Rightarrow> string \<times> state \<Rightarrow> error + (string \<times> state)" where
  "srcset_step env url acc =
     (case acc of (content, st) \<Rightarrow>
        if prefix ''http'' url then
          (case folder_for env url of
             Inl e \<Rightarrow> Inl e
           | Inr folder \<Rightarrow>
               (case download_file env url folder st of
                  Inl e \<Rightarrow> Inl e
                | Inr (None, st') \<Rightarrow> Inr (content, st')
                | Inr (Some local_path, st') \<Rightarrow>
                    if local_path = [] then Inr (content, st')
                    else Inr (str_replace url (fwd_slashes local_path) content, st')))
        else Inr (content, st))"

definition replace_urls_in_srcset :: "env \<Rightarrow> string \<Rightarrow> state \<Rightarrow> error + (string \<times> state)" where
  "replace_urls_in_srcset env content st =
     for_each (srcset_step env) (srcset_urls content) (content, st)"

text \<open>The body of the loop of \<open>replace_references\<close> (lines 98 to 103).\<close>

definition ref_step ::
  "env \<Rightarrow> string \<Rightarrow> string \<times> bool \<times> state \<Rightarrow> error + (string \<times> bool \<times> state)" where
  "ref_step env url acc =
     (case acc of (content, modified, st) \<Rightarrow>
        (case folder_for env url of
           Inl e \<Rightarrow> Inl e
         | Inr folder \<Rightarrow>
             (case download_file env url folder st of
                Inl e \<Rightarrow> Inl e
              | Inr (None, st') \<Rightarrow> Inr (content, modified, st')
              | Inr (Some local_path, st') \<Rightarrow>
                  if local_path = [] then Inr (content, modified, st')
                  else Inr (str_replace url (CHR ''/'' # fwd_slashes local_path) content,
                            True, st'))))"

text \<open>
  \<open>f.read()\<close> of a file opened in text mode: \<open>\r\n\<close> and \<open>\r\<close> are read as \<open>\n\<close>.
  (What \<open>f.write\<close> writes goes to the file as it is, the line separator being \<open>\n\<close>.)
\<close>

fun universal_newlines :: "string \<Rightarrow> string" where
  "universal_newlines [] = []"
| "universal_newlines [c] = (if c = CHR 0x0D then [CHR 0x0A] else [c])"
| "universal_newlines (c # d # ds) =
     (if c = CHR 0x0D \<and> d = CHR 0x0A then CHR 0x0A # universal_newlines ds
      else if c = CHR 0x0D then CHR 0x0A # universal_newlines (d # ds)
      else c # universal_newlines (d # ds))"

definition replace_references :: "env \<Rightarrow> path \<Rightarrow> pattern \<Rightarrow> state \<Rightarrow> error + state" where
  "replace_references env file_path pattern st =
     (case map_of (files st) file_path of
        None \<Rightarrow> Inl OSError
      | Some raw \<Rightarrow>
          (case replace_urls_in_srcset env (universal_newlines raw) st of
             Inl e \<Rightarrow> Inl e
           | Inr (content1, st1) \<Rightarrow>
               (case for_each (ref_step env) (set_order env (findall pattern content1))
                       (content1, False, st1) of
                  Inl e \<Rightarrow> Inl e
                | Inr (content2, modified, st2) \<Rightarrow>
                    if modified
                    then Inr (st2\<lparr>files := AList.update file_path content2 (files st2),
                                  out := out st2 @ [Updated file_path]\<rparr>)
                    else Inr st2)))"

section \<open>Walking the tree\<close>

text \<open>The names of the files that directory \<open>d\<close> lists.\<close>

definition listdir :: "state \<Rightarrow> path \<Rightarrow> string list" where
  "listdir st d = map last (filter (\<lambda>p. p \<noteq> [] \<and> butlast p = d) (map fst (files st)))"

text \<open>The body of the inner loop of \<open>process_files\<close> (lines 114 to 123).\<close>

definition process_file :: "env \<Rightarrow> path \<Rightarrow> string \<Rightarrow> state \<Rightarrow> error + state" where
  "process_file env d file st =
     (let file_path = d @ [file] in
      if suffix ''.html'' (lower_str file) then
        (case replace_references env file_path html_img_pattern st of
           Inl e \<Rightarrow> Inl e
         | Inr st1 \<Rightarrow>
             (case replace_references env file_path html_pdf_pattern st1 of
                Inl e \<Rightarrow> Inl e
              | Inr st2 \<Rightarrow> replace_references env file_path html_video_pattern st2))
      else if suffix ''.css'' (lower_str file) then
        replace_references env file_path css_asset_pattern st
      else Inr st)"

text \<open>
  One directory of the walk: its files are listed when the walk reaches it, then
  processed one after the other.
\<close>

definition process_dir :: "env \<Rightarrow> path \<Rightarrow> state \<Rightarrow> error + state" where
  "process_dir env d st = for_each (process_file env d) (listdir st d) st"

definition process_files :: "env \<Rightarrow> state \<Rightarrow> error + state" where
  "process_files env st =
     for_each (process_dir env) ([] # filter (\<lambda>d. d \<noteq> []) (walk_order env (dirs st))) st"

text \<open>
  The module's start (lines 12 and 13): \<open>os.makedirs(folder, exist_ok=True)\<close> for the
  two folders, which raises where a file has the folder's name.
\<close>

definition makedirs :: "path \<Rightarrow> state \<Rightarrow> error + state" where
  "makedirs d st =
     (if map_of (files st) d \<noteq> None then Inl OSError
      else if is_dir st d then Inr st
      else Inr (st\<lparr>dirs := dirs st @ [d]\<rparr>))"

definition startup :: "state \<Rightarrow> error + state" where
  "startup st =
     (case makedirs assets_folder st of
        Inl e \<Rightarrow> Inl e
      | Inr st1 \<Rightarrow> makedirs fonts_folder st1)"

definition main :: "env \<Rightarrow> state \<Rightarrow> error + state" where
  "main env st = (case startup st of Inl e \<Rightarrow> Inl e | Inr st1 \<Rightarrow> process_files env st1)"

section \<open>What the patterns match\<close>

text \<open>The words a regular expression matches, to reason about the matcher.\<close>

fun lang :: "re \<Rightarrow> string set" where
  "lang Eps = {[]}"
| "lang (A a) = {[c] | c. atom_ok a c}"
| "lang (Seq r1 r2) = {u @ v | u v. u \<in> lang r1 \<and> v \<in> lang r2}"
| "lang (Alt r1 r2) = lang r1 \<union> lang r2"
| "lang (Opt r) = insert [] (lang r)"
| "lang (Plus a) = {w. w \<noteq> [] \<and> list_all (atom_ok a) w}"
| "lang (Star a) = {w. list_all (atom_ok a) w}"

lemma greedy_sound:
  "r \<in> set (greedy a s) \<Longrightarrow> \<exists>w. s = w @ r \<and> w \<noteq> [] \<and> list_all (atom_ok a) w"
proof (induction s)
  case Nil
  then show ?case by simp
next
  case (Cons c cs)
  from Cons.prems have ok: "atom_ok a c" and mem: "r \<in> set (greedy a cs) \<or> r = cs"
    by (auto split: if_splits)
  from mem show ?case
  proof
    assume "r \<in> set (greedy a cs)"
    with Cons.IH obtain w where "cs = w @ r" "list_all (atom_ok a) w" by blast
    with ok have "c # cs = (c # w) @ r \<and> c # w \<noteq> [] \<and> list_all (atom_ok a) (c # w)" by simp
    then show ?thesis by blast
  next
    assume "r = cs"
    with ok have "c # cs = [c] @ r \<and> [c] \<noteq> [] \<and> list_all (atom_ok a) [c]" by simp
    then show ?thesis by blast
  qed
qed

lemma ms_sound: "r \<in> set (ms re s) \<Longrightarrow> \<exists>w. w \<in> lang re \<and> s = w @ r"
proof (induction re arbitrary: s r)
  case Eps
  then show ?case by simp
next
  case (A a)
  then show ?case by (auto split: list.splits if_splits)
next
  case (Seq r1 r2)
  from Seq.prems obtain m where m: "m \<in> set (ms r1 s)" and r: "r \<in> set (ms r2 m)" by auto
  from Seq.IH(1)[OF m] obtain u where u: "u \<in> lang r1" "s = u @ m" by blast
  from Seq.IH(2)[OF r] obtain v where v: "v \<in> lang r2" "m = v @ r" by blast
  from u v have "u @ v \<in> lang (Seq r1 r2) \<and> s = (u @ v) @ r" by auto
  then show ?case by blast
next
  case (Alt r1 r2)
  then show ?case by fastforce
next
  case (Opt re)
  then show ?case by fastforce
next
  case (Plus a)
  then show ?case using greedy_sound[of r a s] by auto
next
  case (Star a)
  then show ?case using greedy_sound[of r a s] by auto
qed

lemma match_at_group:
  assumes "match_at (pre, grp, post) s = Some (g, n)"
  shows "g \<in> lang grp"
proof -
  let ?cands = "concat (map (\<lambda>r1. concat (map (\<lambda>r2. map (\<lambda>r3.
                 (take (length r1 - length r2) r1, length s - length r3)) (ms post r2))
               (ms grp r1))) (ms pre s))"
  from assms obtain rest where "?cands = (g, n) # rest"
    by (auto simp: match_at_def split: list.splits)
  then have "(g, n) \<in> set ?cands"
    by (metis list.set_intros(1))
  then obtain r1 r2 where r2: "r2 \<in> set (ms grp r1)" and g: "g = take (length r1 - length r2) r1"
    by auto
  from ms_sound[OF r2] obtain w where "w \<in> lang grp" "r1 = w @ r2" by blast
  with g show ?thesis by simp
qed

lemma findall_from_group:
  "g \<in> set (findall_from (pre, grp, post) k s) \<Longrightarrow> g \<in> lang grp"
proof (induction "(pre, grp, post)" k s rule: findall_from.induct)
  case (1 k)
  then show ?case by simp
next
  case (2 k c cs)
  then show ?case by simp
next
  case 3
  then show ?case
    by (cases "match_at (pre, grp, post) []") (auto dest: match_at_group)
next
  case (4 c cs)
  then show ?case
    by (cases "match_at (pre, grp, post) (c # cs)") (auto dest: match_at_group)
qed

lemma findall_group: "g \<in> set (findall (pre, grp, post) s) \<Longrightarrow> g \<in> lang grp"
  unfolding findall_def by (rule findall_from_group)

lemma lower_str_append: "lower_str (u @ v) = lower_str u @ lower_str v"
  by (simp add: lower_str_def)

lemma lang_lits: "w \<in> lang (lits cs) \<Longrightarrow> lower_str w = lower_str cs"
  by (induction cs arbitrary: w) (auto simp: lower_str_def)

lemma lang_alts:
  "w \<in> lang (alts ws) \<Longrightarrow> ws \<noteq> [] \<Longrightarrow> \<exists>v \<in> set ws. lower_str w = lower_str v"
  by (induction ws rule: alts.induct) (auto dest: lang_lits)

lemma lang_Seq_suffix: "w \<in> lang (Seq r1 r2) \<Longrightarrow> \<exists>v \<in> lang r2. suffix v w"
  by (auto simp: suffix_def)

lemma suffix_lower_str: "suffix v w \<Longrightarrow> suffix (lower_str v) (lower_str w)"
  by (auto simp: suffix_def lower_str_def)

text \<open>\<open>avoids x r\<close>: no atom of \<open>r\<close> matches the character \<open>x\<close>.\<close>

fun atom_avoids :: "char \<Rightarrow> atom \<Rightarrow> bool" where
  "atom_avoids x (Chr d) = (lower_chr x \<noteq> lower_chr d)"
| "atom_avoids x (In ds) = (lower_chr x \<notin> set (map lower_chr ds))"
| "atom_avoids x (NotIn ds) = (lower_chr x \<in> set (map lower_chr ds))"
| "atom_avoids x Space = (\<not> is_space x)"

fun avoids :: "char \<Rightarrow> re \<Rightarrow> bool" where
  "avoids x Eps = True"
| "avoids x (A a) = atom_avoids x a"
| "avoids x (Seq r1 r2) = (avoids x r1 \<and> avoids x r2)"
| "avoids x (Alt r1 r2) = (avoids x r1 \<and> avoids x r2)"
| "avoids x (Opt r) = avoids x r"
| "avoids x (Plus a) = atom_avoids x a"
| "avoids x (Star a) = atom_avoids x a"

lemma atom_avoids_ok: "atom_avoids x a \<Longrightarrow> atom_ok a c \<Longrightarrow> c \<noteq> x"
  by (cases a) auto

lemma avoids_lang: "avoids x r \<Longrightarrow> w \<in> lang r \<Longrightarrow> x \<notin> set w"
proof (induction r arbitrary: w)
  case (Plus a)
  then show ?case by (auto simp: list_all_iff dest: atom_avoids_ok)
next
  case (Star a)
  then show ?case by (auto simp: list_all_iff dest: atom_avoids_ok)
qed (auto dest: atom_avoids_ok)

lemma url_group_prefix:
  assumes "w \<in> lang (url_group s excl exts)" "s = Chr CHR ''s'' \<or> s = In [CHR ''s'']"
  shows "prefix ''http://'' (lower_str w) \<or> prefix ''https://'' (lower_str w)"
proof -
  from assms(1) obtain a b c d where w: "w = a @ b @ c @ d"
    and a: "a \<in> lang (lits ''http'')" and b: "b \<in> lang (Opt (A s))"
    and c: "c \<in> lang (lits ''://'')"
    unfolding url_group_def lang.simps by blast
  have e1: "lower_str ''http'' = ''http''" by code_simp
  have e2: "lower_str ''://'' = ''://''" by code_simp
  have e3: "lower_chr CHR ''s'' = CHR ''s''" by code_simp
  from a have la: "lower_str a = ''http''" using lang_lits[of a "''http''"] e1 by simp
  from c have lc: "lower_str c = ''://''" using lang_lits[of c "''://''"] e2 by simp
  from b assms(2) have lb: "lower_str b = [] \<or> lower_str b = ''s''"
    using e3 by (auto simp: lower_str_def)
  from lb show ?thesis
  proof
    assume "lower_str b = []"
    with la lc w have "lower_str w = ''http://'' @ lower_str d" by (simp add: lower_str_append)
    then show ?thesis by (metis prefixI)
  next
    assume "lower_str b = ''s''"
    with la lc w have "lower_str w = ''https://'' @ lower_str d" by (simp add: lower_str_append)
    then show ?thesis by (metis prefixI)
  qed
qed

lemma url_group_suffix:
  assumes "w \<in> lang (url_group s excl exts)" "exts \<noteq> []"
  shows "\<exists>e \<in> set exts.
           suffix (CHR ''.'' # lower_str (strip_by (\<lambda>c. c = CHR ''.'') e)) (lower_str w)"
proof -
  obtain v where v: "v \<in> lang (Seq (A (Chr CHR ''.'')) (ext_alts exts))" and sf: "suffix v w"
  proof -
    from assms(1) obtain v1 where 1: "v1 \<in> lang (Seq (Opt (A s)) (Seq (lits ''://'')
        (Seq (Plus (NotIn excl)) (Seq (A (Chr CHR ''.'')) (ext_alts exts)))))" "suffix v1 w"
      unfolding url_group_def using lang_Seq_suffix by blast
    from 1(1) obtain v2 where 2: "v2 \<in> lang (Seq (lits ''://'')
        (Seq (Plus (NotIn excl)) (Seq (A (Chr CHR ''.'')) (ext_alts exts))))" "suffix v2 v1"
      using lang_Seq_suffix by blast
    from 2(1) obtain v3 where 3: "v3 \<in> lang (Seq (Plus (NotIn excl))
        (Seq (A (Chr CHR ''.'')) (ext_alts exts)))" "suffix v3 v2"
      using lang_Seq_suffix by blast
    from 3(1) obtain v4 where 4: "v4 \<in> lang (Seq (A (Chr CHR ''.'')) (ext_alts exts))"
        "suffix v4 v3"
      using lang_Seq_suffix by blast
    from 1(2) 2(2) 3(2) 4(2) have "suffix v4 w" by (meson suffix_order.trans)
    with 4(1) that show ?thesis by blast
  qed
  from v obtain c f where vf: "v = c # f" and c: "lower_chr c = lower_chr CHR ''.''"
    and f: "f \<in> lang (ext_alts exts)"
    by auto
  from f assms(2) obtain e where e: "e \<in> set exts"
    and fe: "lower_str f = lower_str (strip_by (\<lambda>c. c = CHR ''.'') e)"
    unfolding ext_alts_def using lang_alts[of f "map (strip_by (\<lambda>c. c = CHR ''.'')) exts"] by auto
  have "lower_chr CHR ''.'' = CHR ''.''" by code_simp
  with c have "lower_chr c = CHR ''.''" by simp
  with vf fe have "lower_str v = CHR ''.'' # lower_str (strip_by (\<lambda>c. c = CHR ''.'') e)"
    by (simp add: lower_str_def)
  with suffix_lower_str[OF sf] e show ?thesis by metis
qed

text \<open>Every extension of the program's lists is a dot and a lower-case word.\<close>

lemma extensions_plain:
  "list_all (\<lambda>e. CHR ''.'' # lower_str (strip_by (\<lambda>c. c = CHR ''.'') e) = e)
     (image_extensions @ font_extensions @ pdf_extensions @ video_extensions)"
  by code_simp

text \<open>
  The shape of a URL: it starts with \<open>http://\<close> or \<open>https://\<close> and ends in one of the
  extensions, both without regard to case, and has none of the excluded characters.
\<close>

definition url_shape :: "char list \<Rightarrow> string list \<Rightarrow> string \<Rightarrow> bool" where
  "url_shape excl exts u =
     ((prefix ''http://'' (lower_str u) \<or> prefix ''https://'' (lower_str u))
      \<and> list_ex (\<lambda>e. suffix e (lower_str u)) exts
      \<and> list_all (\<lambda>x. x \<notin> set u) excl)"

lemma url_group_shape:
  assumes w: "w \<in> lang (url_group s excl exts)"
    and s: "s = Chr CHR ''s'' \<or> s = In [CHR ''s'']"
    and exts: "exts \<noteq> []"
      "list_all (\<lambda>e. CHR ''.'' # lower_str (strip_by (\<lambda>c. c = CHR ''.'') e) = e) exts"
    and excl: "list_all (\<lambda>x. avoids x (url_group s excl exts)) excl"
  shows "url_shape excl exts w"
proof -
  from url_group_suffix[OF w exts(1)] exts(2)
  have "list_ex (\<lambda>e. suffix e (lower_str w)) exts"
    by (auto simp: list_all_iff list_ex_iff)
  moreover from excl w have "list_all (\<lambda>x. x \<notin> set w) excl"
    by (auto simp: list_all_iff dest: avoids_lang)
  ultimately show ?thesis
    using url_group_prefix[OF w s] by (simp add: url_shape_def)
qed

lemma html_pattern_shape:
  assumes "u \<in> set (findall (html_pattern exts) s)"
    and "exts \<in> {image_extensions, pdf_extensions, video_extensions}"
  shows "url_shape html_excluded exts u"
proof -
  from assms(1) have w: "u \<in> lang (url_group (Chr CHR ''s'') html_excluded exts)"
    unfolding html_pattern_def by (rule findall_group)
  from assms(2) consider "exts = image_extensions" | "exts = pdf_extensions"
    | "exts = video_extensions" by blast
  then show ?thesis
  proof cases
    case 1
    have "image_extensions \<noteq> []" by (simp add: image_extensions_def)
    moreover have "list_all (\<lambda>e. CHR ''.'' # lower_str (strip_by (\<lambda>c. c = CHR ''.'') e) = e)
        image_extensions" by code_simp
    moreover have "list_all (\<lambda>x. avoids x (url_group (Chr CHR ''s'') html_excluded
        image_extensions)) html_excluded" by code_simp
    ultimately show ?thesis using url_group_shape[OF w] 1 by simp
  next
    case 2
    have "pdf_extensions \<noteq> []" by (simp add: pdf_extensions_def)
    moreover have "list_all (\<lambda>e. CHR ''.'' # lower_str (strip_by (\<lambda>c. c = CHR ''.'') e) = e)
        pdf_extensions" by code_simp
    moreover have "list_all (\<lambda>x. avoids x (url_group (Chr CHR ''s'') html_excluded
        pdf_extensions)) html_excluded" by code_simp
    ultimately show ?thesis using url_group_shape[OF w] 2 by simp
  next
    case 3
    have "video_extensions \<noteq> []" by (simp add: video_extensions_def)
    moreover have "list_all (\<lambda>e. CHR ''.'' # lower_str (strip_by (\<lambda>c. c = CHR ''.'') e) = e)
        video_extensions" by code_simp
    moreover have "list_all (\<lambda>x. avoids x (url_group (Chr CHR ''s'') html_excluded
        video_extensions)) html_excluded" by code_simp
    ultimately show ?thesis using url_group_shape[OF w] 3 by simp
  qed
qed

lemma css_pattern_shape:
  assumes "u \<in> set (findall css_asset_pattern s)"
  shows "url_shape css_excluded (image_extensions @ font_extensions) u"
proof -
  from assms have w: "u \<in> lang (url_group (In [CHR ''s'']) css_excluded
      (image_extensions @ font_extensions))"
    unfolding css_asset_pattern_def by (rule findall_group)
  have "image_extensions @ font_extensions \<noteq> []" by (simp add: image_extensions_def)
  moreover have "list_all (\<lambda>e. CHR ''.'' # lower_str (strip_by (\<lambda>c. c = CHR ''.'') e) = e)
      (image_extensions @ font_extensions)" by code_simp
  moreover have "list_all (\<lambda>x. avoids x (url_group (In [CHR ''s'']) css_excluded
      (image_extensions @ font_extensions))) css_excluded" by code_simp
  ultimately show ?thesis using url_group_shape[OF w] by simp
qed

text \<open>
  C8. Every URL matched by one of the three HTML patterns starts with \<open>http://\<close> or
  \<open>https://\<close> and ends in an extension of the pattern's list, both without regard to
  case, and has no double quote, no single quote and no \<open>>\<close>. Every URL matched by the CSS
  pattern starts and ends in the same way for the image and font extensions, and has no
  double quote, no single quote and no closing parenthesis.
\<close>

theorem matched_urls_shape:
  "(u \<in> set (findall html_img_pattern s)
      \<longrightarrow> url_shape [CHR 0x22, CHR 0x27, CHR ''>''] image_extensions u)
   \<and> (u \<in> set (findall html_pdf_pattern s)
      \<longrightarrow> url_shape [CHR 0x22, CHR 0x27, CHR ''>''] pdf_extensions u)
   \<and> (u \<in> set (findall html_video_pattern s)
      \<longrightarrow> url_shape [CHR 0x22, CHR 0x27, CHR ''>''] video_extensions u)
   \<and> (u \<in> set (findall css_asset_pattern s)
      \<longrightarrow> url_shape [CHR 0x22, CHR 0x27, CHR '')''] (image_extensions @ font_extensions) u)"
  using html_pattern_shape[of u image_extensions s] html_pattern_shape[of u pdf_extensions s]
    html_pattern_shape[of u video_extensions s] css_pattern_shape[of u s]
  by (simp add: html_img_pattern_def html_pdf_pattern_def html_video_pattern_def
      html_excluded_def css_excluded_def)

theorem matched_urls_shape_witness:
  "''https://cdn.test/pic.jpg'' \<in> set (findall html_img_pattern ''<img src=\"https://cdn.test/pic.jpg\">'')
   \<and> url_shape [CHR 0x22, CHR 0x27, CHR ''>''] image_extensions ''https://cdn.test/pic.jpg''
   \<and> ''HTTP://h/Doc.PDF'' \<in> set (findall html_pdf_pattern ''<a href='HTTP://h/Doc.PDF'>'')
   \<and> url_shape [CHR 0x22, CHR 0x27, CHR ''>''] pdf_extensions ''HTTP://h/Doc.PDF''
   \<and> ''http://h/v.webm'' \<in> set (findall html_video_pattern ''<video src=\"http://h/v.webm\">'')
   \<and> url_shape [CHR 0x22, CHR 0x27, CHR ''>''] video_extensions ''http://h/v.webm''
   \<and> ''http://h/a>b.woff2'' \<in> set (findall css_asset_pattern ''src:url('http://h/a>b.woff2')'')
   \<and> url_shape [CHR 0x22, CHR 0x27, CHR '')''] (image_extensions @ font_extensions)
        ''http://h/a>b.woff2''"
proof -
  have 1: "''https://cdn.test/pic.jpg''
      \<in> set (findall html_img_pattern ''<img src=\"https://cdn.test/pic.jpg\">'')"
    by code_simp
  have 2: "''HTTP://h/Doc.PDF'' \<in> set (findall html_pdf_pattern ''<a href='HTTP://h/Doc.PDF'>'')"
    by code_simp
  have 3: "''http://h/v.webm'' \<in> set (findall html_video_pattern ''<video src=\"http://h/v.webm\">'')"
    by code_simp
  have 4: "''http://h/a>b.woff2''
      \<in> set (findall css_asset_pattern ''src:url('http://h/a>b.woff2')'')"
    by code_simp
  show ?thesis
    using 1 2 3 4
      matched_urls_shape[of "''https://cdn.test/pic.jpg''" "''<img src=\"https://cdn.test/pic.jpg\">''"]
      matched_urls_shape[of "''HTTP://h/Doc.PDF''" "''<a href='HTTP://h/Doc.PDF'>''"]
      matched_urls_shape[of "''http://h/v.webm''" "''<video src=\"http://h/v.webm\">''"]
      matched_urls_shape[of "''http://h/a>b.woff2''" "''src:url('http://h/a>b.woff2')''"]
    by blast
qed

text \<open>
  The CSS pattern excludes the closing parenthesis where the HTML patterns exclude \<open>>\<close>:
  a URL it matches may contain \<open>>\<close>.
\<close>

theorem css_url_with_gt_counterexample:
  "''http://h/a>b.png'' \<in> set (findall css_asset_pattern ''url(http://h/a>b.png)'')
   \<and> CHR ''>'' \<in> set ''http://h/a>b.png''"
  by code_simp

section \<open>The file name of a download\<close>

lemma subseq_drop_self: "subseq (drop n xs) xs"
  by (metis append_take_drop_id list_emb_append2 subseq_order.order_refl)

lemma subseq_takeWhile_self: "subseq (takeWhile P xs) xs"
  by (metis takeWhile_dropWhile_id prefixI prefix_imp_subseq)

lemma subseq_dropWhile_self: "subseq (dropWhile P xs) xs"
  by (metis takeWhile_dropWhile_id list_emb_append2 subseq_order.order_refl)

lemma str_replace_remove_subseq: "subseq (str_replace old [] s) s"
proof (induction old "[] :: string" s rule: str_replace.induct)
  case (1 old)
  then show ?case by simp
next
  case (2 old c cs)
  show ?case
  proof (cases "old = []")
    case True
    with 2 show ?thesis by simp
  next
    case False
    show ?thesis
    proof (cases "prefix old (c # cs)")
      case True
      with False 2 have "subseq (str_replace old [] (drop (length old) (c # cs)))
          (drop (length old) (c # cs))" by simp
      also have "subseq (drop (length old) (c # cs)) (c # cs)" by (rule subseq_drop_self)
      finally show ?thesis using True False by simp
    next
      case no: False
      with False 2 show ?thesis by simp
    qed
  qed
qed

lemma str_replace_absent: "x \<in> set old \<Longrightarrow> x \<notin> set s \<Longrightarrow> str_replace old new s = s"
proof (induction old new s rule: str_replace.induct)
  case (1 old new)
  then show ?case by auto
next
  case (2 old new c cs)
  have np: "\<not> prefix old (c # cs)"
  proof
    assume "prefix old (c # cs)"
    then have "set old \<subseteq> set (c # cs)" by (rule set_mono_prefix)
    with "2.prems" show False by blast
  qed
  from "2.prems" have ne: "old \<noteq> []" by auto
  from "2.prems" have "x \<notin> set cs" by simp
  with "2.IH"(3)[OF ne np "2.prems"(1)] have "str_replace old new cs = cs" .
  with np ne show ?case by simp
qed

lemma last_segment_suffix: "suffix (last_segment p) p"
proof -
  have "prefix (takeWhile (\<lambda>c. c \<noteq> CHR ''/'') (rev p)) (rev p)"
    by (metis takeWhile_dropWhile_id prefixI)
  then show ?thesis
    unfolding last_segment_def by (metis rev_rev_ident suffix_to_prefix)
qed

lemma subseq_basename: "subseq (basename p) p"
  unfolding basename_def using last_segment_suffix
  by (metis suffix_def list_emb_append2 subseq_order.order_refl)

lemma subseq_split_params: "subseq (split_params p) p"
proof -
  let ?seg = "last_segment p"
  from last_segment_suffix[of p] obtain zs where zs: "p = zs @ ?seg"
    by (auto simp: suffix_def)
  then have "length p - length ?seg = length zs"
    by (metis add_diff_cancel_right' length_append)
  with zs have "take (length p - length ?seg) p = zs"
    by (metis append_eq_conv_conj)
  with zs have p: "p = take (length p - length ?seg) p @ ?seg" by simp
  have "subseq (take (length p - length ?seg) p @ takeWhile (\<lambda>c. c \<noteq> CHR '';'') ?seg)
          (take (length p - length ?seg) p @ ?seg)"
    by (intro list_emb_append_mono subseq_order.order_refl subseq_takeWhile_self)
  with p have "subseq (take (length p - length ?seg) p @ takeWhile (\<lambda>c. c \<noteq> CHR '';'') ?seg) p"
    by simp
  then show ?thesis
    by (simp add: split_params_def Let_def subseq_takeWhile_self)
qed

lemma subseq_url_rest: "subseq (url_rest url) url"
proof -
  let ?u1 = "dropWhile (\<lambda>c. of_char c \<le> (32::nat)) url"
  let ?u2 = "filter (\<lambda>c. c \<notin> set [CHR 0x09, CHR 0x0D, CHR 0x0A]) ?u1"
  have "subseq (snd (split_scheme ?u2)) ?u2"
    by (simp add: split_scheme_def Let_def subseq_drop_self)
  also have "subseq ?u2 ?u1" by (rule subseq_filter_left)
  also have "subseq ?u1 url" by (rule subseq_dropWhile_self)
  finally show ?thesis by (simp add: url_rest_def)
qed

lemma subseq_url_path: "subseq (url_path url) url"
proof -
  let ?rest = "url_rest url"
  let ?r1 = "if take 2 ?rest = ''//''
             then dropWhile (\<lambda>c. c \<notin> set ''/?#'') (drop 2 ?rest) else ?rest"
  let ?r2 = "takeWhile (\<lambda>c. c \<noteq> CHR ''#'') ?r1"
  let ?r3 = "takeWhile (\<lambda>c. c \<noteq> CHR ''?'') ?r2"
  have "subseq (dropWhile (\<lambda>c. c \<notin> set ''/?#'') (drop 2 ?rest)) ?rest"
    by (meson subseq_dropWhile_self subseq_drop_self subseq_order.order_trans)
  then have "subseq ?r1 ?rest" by simp
  then have "subseq ?r1 url" using subseq_url_rest subseq_order.order_trans by blast
  then have "subseq ?r2 url" using subseq_takeWhile_self subseq_order.order_trans by blast
  then have r3: "subseq ?r3 url" using subseq_takeWhile_self subseq_order.order_trans by blast
  then have "subseq (split_params ?r3) url"
    using subseq_split_params subseq_order.order_trans by blast
  with r3 show ?thesis by (simp add: url_path_def Let_def)
qed

lemma urlparse_path_Inr: "urlparse_path env url = Inr p \<Longrightarrow> p = url_path url"
  by (auto simp: urlparse_path_def split: option.splits if_splits)

text \<open>
  The file name as C5 words it: the basename of the URL's path with every \<open>%20\<close>
  removed and every character outside \<open>[A-Za-z0-9._-]\<close> stripped.
\<close>

definition claimed_file_name :: "env \<Rightarrow> string \<Rightarrow> error + string" where
  "claimed_file_name env url =
     (case urlparse_path env url of
        Inl e \<Rightarrow> Inl e
      | Inr p \<Rightarrow> Inr (strip_special (str_replace ''%20'' [] (basename p))))"

text \<open>
  Worlds for evaluation: every request gets the same answer, \<open>set(matches)\<close> is
  iterated in the order of the last occurrences, network locations are refused for a
  bracket without its partner, and \<open>os.walk\<close> comes to the directories in the order of
  \<open>dirs\<close>. In \<open>env_ok\<close> every request succeeds.
\<close>

definition env_with :: "response \<Rightarrow> env" where
  "env_with r = \<lparr>net = (\<lambda>k url. r), set_order = remdups, netloc_ok = brackets_ok,
                walk_order = (\<lambda>ds. ds)\<rparr>"

definition env_ok :: env where
  "env_ok = env_with (Response 200 [''DATA''] True)"

text \<open>
  C5. \<open>download_file\<close> removes the occurrences of \<open>%20\<close> from the whole URL, takes the
  basename of the path of what is left, removes the occurrences of \<open>%20\<close> from this
  basename once more and strips every character outside \<open>[A-Za-z0-9._-]\<close>. The name
  has only characters of this set and is a subsequence of the URL (nothing is escaped or
  replaced); for a URL without \<open>%\<close> it is the basename of the URL's path with the other
  characters stripped; \<open>https://example.com/a%20b.PNG\<close> gives \<open>ab.PNG\<close> and
  \<open>https://example.com/img@2x!.png\<close> gives \<open>img2x.png\<close>.
\<close>

theorem file_name_sanitized:
  "(file_name_of env url = Inr n \<longrightarrow>
      claimed_file_name env (str_replace ''%20'' [] url) = Inr n
      \<and> set n \<subseteq> set name_chars
      \<and> subseq n url
      \<and> (CHR ''%'' \<notin> set url \<longrightarrow> claimed_file_name env url = Inr n))
   \<and> (netloc_ok env ''example.com'' \<longrightarrow>
        file_name_of env ''https://example.com/a%20b.PNG'' = Inr ''ab.PNG''
        \<and> file_name_of env ''https://example.com/img@2x!.png'' = Inr ''img2x.png'')"
proof (intro conjI impI)
  assume n: "file_name_of env url = Inr n"
  let ?u = "str_replace ''%20'' [] url"
  from n obtain p where p: "urlparse_path env ?u = Inr p"
    and nn: "n = strip_special (str_replace ''%20'' [] (basename p))"
    by (auto simp: file_name_of_def split: sum.splits)
  from p nn show "claimed_file_name env ?u = Inr n"
    by (simp add: claimed_file_name_def)
  from nn show "set n \<subseteq> set name_chars"
    by (auto simp: strip_special_def)
  have "subseq n (str_replace ''%20'' [] (basename p))"
    unfolding nn strip_special_def by (rule subseq_filter_left)
  also have "subseq (str_replace ''%20'' [] (basename p)) (basename p)"
    by (rule str_replace_remove_subseq)
  also have "subseq (basename p) p" by (rule subseq_basename)
  also have "subseq p ?u" using urlparse_path_Inr[OF p] subseq_url_path by simp
  also have "subseq ?u url" by (rule str_replace_remove_subseq)
  finally show "subseq n url" .
  assume pc: "CHR ''%'' \<notin> set url"
  then have "?u = url" by (intro str_replace_absent[of "CHR ''%''"]) simp_all
  with p nn show "claimed_file_name env url = Inr n"
    by (simp add: claimed_file_name_def)
next
  assume ok: "netloc_ok env ''example.com''"
  have 1: "url_netloc (str_replace ''%20'' [] ''https://example.com/a%20b.PNG'')
      = Some ''example.com''" by code_simp
  have 2: "strip_special (str_replace ''%20'' [] (basename (url_path
      (str_replace ''%20'' [] ''https://example.com/a%20b.PNG'')))) = ''ab.PNG''" by code_simp
  from ok 1 2 show "file_name_of env ''https://example.com/a%20b.PNG'' = Inr ''ab.PNG''"
    by (simp add: file_name_of_def urlparse_path_def)
next
  assume ok: "netloc_ok env ''example.com''"
  have 1: "url_netloc (str_replace ''%20'' [] ''https://example.com/img@2x!.png'')
      = Some ''example.com''" by code_simp
  have 2: "strip_special (str_replace ''%20'' [] (basename (url_path
      (str_replace ''%20'' [] ''https://example.com/img@2x!.png'')))) = ''img2x.png''" by code_simp
  from ok 1 2 show "file_name_of env ''https://example.com/img@2x!.png'' = Inr ''img2x.png''"
    by (simp add: file_name_of_def urlparse_path_def)
qed

theorem file_name_sanitized_witness:
  "file_name_of env_ok ''https://cdn.test/my%20pic(1).jpg'' = Inr ''mypic1.jpg''
   \<and> claimed_file_name env_ok (str_replace ''%20'' [] ''https://cdn.test/my%20pic(1).jpg'')
       = Inr ''mypic1.jpg''
   \<and> set ''mypic1.jpg'' \<subseteq> set name_chars
   \<and> subseq ''mypic1.jpg'' ''https://cdn.test/my%20pic(1).jpg''
   \<and> file_name_of env_ok ''https://cdn.test/pic(1).jpg'' = Inr ''pic1.jpg''
   \<and> CHR ''%'' \<notin> set ''https://cdn.test/pic(1).jpg''
   \<and> claimed_file_name env_ok ''https://cdn.test/pic(1).jpg'' = Inr ''pic1.jpg''
   \<and> netloc_ok env_ok ''example.com''
   \<and> file_name_of env_ok ''https://example.com/a%20b.PNG'' = Inr ''ab.PNG''
   \<and> file_name_of env_ok ''https://example.com/img@2x!.png'' = Inr ''img2x.png''"
proof -
  have 1: "file_name_of env_ok ''https://cdn.test/my%20pic(1).jpg'' = Inr ''mypic1.jpg''"
    by code_simp
  have 2: "file_name_of env_ok ''https://cdn.test/pic(1).jpg'' = Inr ''pic1.jpg''"
    by code_simp
  have 3: "CHR ''%'' \<notin> set ''https://cdn.test/pic(1).jpg''" by simp
  have 4: "netloc_ok env_ok ''example.com''" by code_simp
  show ?thesis
    using 1 2 3 4
      file_name_sanitized[of env_ok "''https://cdn.test/my%20pic(1).jpg''" "''mypic1.jpg''"]
      file_name_sanitized[of env_ok "''https://cdn.test/pic(1).jpg''" "''pic1.jpg''"]
    by blast
qed

text \<open>
  The \<open>%20\<close> is removed twice, from the URL and from the basename, and a removal can
  bring a new \<open>%20\<close> together: the name is not the basename of the URL's path with the
  occurrences of \<open>%20\<close> removed.
\<close>

theorem file_name_counterexample:
  "file_name_of env_ok ''http://h/a%2%2%20000.png'' = Inr ''a200.png''
   \<and> claimed_file_name env_ok ''http://h/a%2%2%20000.png'' = Inr ''a22000.png''"
  by code_simp

section \<open>What download_file does\<close>

lemma path_exists_out [simp]: "path_exists (st\<lparr>out := x\<rparr>) p = path_exists st p"
  by (simp add: path_exists_def is_dir_def)

lemma path_exists_requests [simp]: "path_exists (st\<lparr>requests := x\<rparr>) p = path_exists st p"
  by (simp add: path_exists_def is_dir_def)

lemma is_dir_out [simp]: "is_dir (st\<lparr>out := x\<rparr>) p = is_dir st p"
  by (simp add: is_dir_def)

lemma is_dir_requests [simp]: "is_dir (st\<lparr>requests := x\<rparr>) p = is_dir st p"
  by (simp add: is_dir_def)

lemma is_dir_files [simp]: "is_dir (st\<lparr>files := x\<rparr>) p = is_dir st p"
  by (simp add: is_dir_def)

lemma download_file_existing:
  assumes "file_name_of env url = Inr n" "path_exists st (t @ [n])"
  shows "download_file env url t st
           = Inr (Some (relpath (t @ [n])), st\<lparr>out := out st @ [AlreadyExists n]\<rparr>)"
  using assms by (simp add: download_file_def)

lemma download_file_failed_status:
  assumes "file_name_of env url = Inr n" "\<not> path_exists st (t @ [n])"
    and "net env (length (requests st)) url = Response status chunks complete"
    and "status \<noteq> 200"
  shows "download_file env url t st
           = Inr (None, st\<lparr>requests := requests st @ [url],
                            out := out st @ [FailedStatus status url]\<rparr>)"
  using assms by (simp add: download_file_def)

lemma download_file_request_exception:
  assumes "file_name_of env url = Inr n" "\<not> path_exists st (t @ [n])"
    and "net env (length (requests st)) url = RequestException"
  shows "download_file env url t st
           = Inr (None, st\<lparr>requests := requests st @ [url],
                            out := out st @ [RequestFailed url]\<rparr>)"
  using assms by (simp add: download_file_def)

lemma download_file_Some:
  assumes "download_file env url t st = Inr (Some p, st')" "file_name_of env url = Inr n"
  shows "p = relpath (t @ [n]) \<and> path_exists st' (t @ [n])"
proof (cases "path_exists st (t @ [n])")
  case True
  with assms show ?thesis by (auto simp: download_file_def)
next
  case False
  with assms have "map_of (files st') (normpath (t @ [n])) \<noteq> None \<and> p = relpath (t @ [n])"
    by (auto simp: download_file_def Let_def update_conv'
        split: response.splits if_splits)
  then show ?thesis by (simp add: path_exists_def)
qed

lemma download_file_requests:
  assumes "download_file env url t st = Inr (r, st')" "file_name_of env url = Inr n"
  shows "requests st' = (if path_exists st (t @ [n]) then requests st else requests st @ [url])"
  using assms
  by (auto simp: download_file_def Let_def split: response.splits if_splits)

lemma download_file_dirs:
  assumes "download_file env url t st = Inr (r, st')"
  shows "dirs st' = dirs st"
  using assms
  by (auto simp: download_file_def Let_def split: sum.splits response.splits if_splits)

text \<open>A project after the start of the module, with no file in it.\<close>

definition st_fresh :: state where
  "st_fresh = \<lparr>dirs = [assets_folder, fonts_folder], files = [], requests = [], out = []\<rparr>"

text \<open>
  C6. If a file with the sanitized name exists in the target folder, \<open>download_file\<close>
  returns its path relative to the project root and makes no request. So when two URLs
  have the same sanitized name and the first is resolved into a folder where the name
  did not exist, the first makes one request and the second makes none and returns the
  same path.
\<close>

theorem existing_file_is_reused:
  "(file_name_of env url = Inr n \<and> path_exists st (t @ [n]) \<longrightarrow>
      download_file env url t st
        = Inr (Some (relpath (t @ [n])), st\<lparr>out := out st @ [AlreadyExists n]\<rparr>))
   \<and> (file_name_of env u1 = Inr n \<and> file_name_of env u2 = Inr n
        \<and> \<not> path_exists st (t @ [n])
        \<and> download_file env u1 t st = Inr (Some p, st1) \<longrightarrow>
      requests st1 = requests st @ [u1]
      \<and> download_file env u2 t st1 = Inr (Some p, st1\<lparr>out := out st1 @ [AlreadyExists n]\<rparr>))"
proof (intro conjI impI)
  assume "file_name_of env url = Inr n \<and> path_exists st (t @ [n])"
  then show "download_file env url t st
        = Inr (Some (relpath (t @ [n])), st\<lparr>out := out st @ [AlreadyExists n]\<rparr>)"
    by (simp add: download_file_existing)
next
  assume a: "file_name_of env u1 = Inr n \<and> file_name_of env u2 = Inr n
        \<and> \<not> path_exists st (t @ [n])
        \<and> download_file env u1 t st = Inr (Some p, st1)"
  then show "requests st1 = requests st @ [u1]"
    using download_file_requests[of env u1 t st "Some p" st1 n] by simp
  from a have "p = relpath (t @ [n]) \<and> path_exists st1 (t @ [n])"
    using download_file_Some by blast
  with a show "download_file env u2 t st1
      = Inr (Some p, st1\<lparr>out := out st1 @ [AlreadyExists n]\<rparr>)"
    by (simp add: download_file_existing)
qed

theorem existing_file_is_reused_witness:
  "file_name_of env_ok ''https://cdn.test/pic.jpg?v=2'' = Inr ''pic.jpg''
   \<and> path_exists
        \<lparr>dirs = [assets_folder, fonts_folder],
         files = [([''assets'', ''pic.jpg''], ''DATA'')],
         requests = [''https://cdn.test/pic.jpg?v=1''], out = [Downloaded ''pic.jpg'']\<rparr>
        (assets_folder @ [''pic.jpg''])
   \<and> file_name_of env_ok ''https://cdn.test/pic.jpg?v=1'' = Inr ''pic.jpg''
   \<and> \<not> path_exists st_fresh (assets_folder @ [''pic.jpg''])
   \<and> download_file env_ok ''https://cdn.test/pic.jpg?v=1'' assets_folder st_fresh
       = Inr (Some ''assets/pic.jpg'',
              \<lparr>dirs = [assets_folder, fonts_folder],
               files = [([''assets'', ''pic.jpg''], ''DATA'')],
               requests = [''https://cdn.test/pic.jpg?v=1''], out = [Downloaded ''pic.jpg'']\<rparr>)
   \<and> download_file env_ok ''https://cdn.test/pic.jpg?v=2'' assets_folder
        \<lparr>dirs = [assets_folder, fonts_folder],
         files = [([''assets'', ''pic.jpg''], ''DATA'')],
         requests = [''https://cdn.test/pic.jpg?v=1''], out = [Downloaded ''pic.jpg'']\<rparr>
       = Inr (Some ''assets/pic.jpg'',
              \<lparr>dirs = [assets_folder, fonts_folder],
               files = [([''assets'', ''pic.jpg''], ''DATA'')],
               requests = [''https://cdn.test/pic.jpg?v=1''],
               out = [Downloaded ''pic.jpg'', AlreadyExists ''pic.jpg'']\<rparr>)"
proof -
  let ?st1 = "\<lparr>dirs = [assets_folder, fonts_folder],
         files = [([''assets'', ''pic.jpg''], ''DATA'')],
         requests = [''https://cdn.test/pic.jpg?v=1''], out = [Downloaded ''pic.jpg'']\<rparr>"
  have 1: "file_name_of env_ok ''https://cdn.test/pic.jpg?v=2'' = Inr ''pic.jpg''" by code_simp
  have 2: "path_exists ?st1 (assets_folder @ [''pic.jpg''])" by code_simp
  have 3: "file_name_of env_ok ''https://cdn.test/pic.jpg?v=1'' = Inr ''pic.jpg''" by code_simp
  have 4: "\<not> path_exists st_fresh (assets_folder @ [''pic.jpg''])" by code_simp
  have 5: "download_file env_ok ''https://cdn.test/pic.jpg?v=1'' assets_folder st_fresh
       = Inr (Some ''assets/pic.jpg'', ?st1)" by code_simp
  from existing_file_is_reused[where env = env_ok and n = "''pic.jpg''" and t = assets_folder
      and ?u1.0 = "''https://cdn.test/pic.jpg?v=1''" and ?u2.0 = "''https://cdn.test/pic.jpg?v=2''"
      and st = st_fresh and p = "''assets/pic.jpg''" and ?st1.0 = ?st1] 1 3 4 5
  have "download_file env_ok ''https://cdn.test/pic.jpg?v=2'' assets_folder ?st1
      = Inr (Some ''assets/pic.jpg'', ?st1\<lparr>out := out ?st1 @ [AlreadyExists ''pic.jpg'']\<rparr>)"
    by blast
  moreover from existing_file_is_reused[where env = env_ok and n = "''pic.jpg''"
      and t = assets_folder and url = "''https://cdn.test/pic.jpg?v=2''" and st = ?st1] 1 2
  have "download_file env_ok ''https://cdn.test/pic.jpg?v=2'' assets_folder ?st1
      = Inr (Some (relpath (assets_folder @ [''pic.jpg''])),
             ?st1\<lparr>out := out ?st1 @ [AlreadyExists ''pic.jpg'']\<rparr>)"
    by blast
  ultimately have "download_file env_ok ''https://cdn.test/pic.jpg?v=2'' assets_folder ?st1
      = Inr (Some ''assets/pic.jpg'', ?st1\<lparr>out := out ?st1 @ [AlreadyExists ''pic.jpg'']\<rparr>)"
    by simp
  with 1 2 3 4 5 show ?thesis by simp
qed

lemma download_file_None:
  assumes "download_file env url t st = Inr (None, st')" "file_name_of env url = Inr n"
  shows "\<not> path_exists st (t @ [n])"
  using assms by (auto simp: download_file_def)

text \<open>
  C3. When \<open>download_file\<close> fails because the status is not 200 or because the request
  itself raises, it has written nothing: the files are as before and no file exists at
  the destination.
\<close>

theorem failed_request_writes_nothing:
  "download_file env url t st = Inr (None, st') \<and> file_name_of env url = Inr n
   \<and> (net env (length (requests st)) url = RequestException
        \<or> (\<exists>status chunks complete.
              net env (length (requests st)) url = Response status chunks complete
              \<and> status \<noteq> 200))
   \<longrightarrow> files st' = files st \<and> dirs st' = dirs st \<and> \<not> path_exists st' (t @ [n])"
proof
  assume a: "download_file env url t st = Inr (None, st') \<and> file_name_of env url = Inr n
   \<and> (net env (length (requests st)) url = RequestException
        \<or> (\<exists>status chunks complete.
              net env (length (requests st)) url = Response status chunks complete
              \<and> status \<noteq> 200))"
  then have ne: "\<not> path_exists st (t @ [n])" using download_file_None by blast
  from a consider "net env (length (requests st)) url = RequestException"
    | status chunks complete where
      "net env (length (requests st)) url = Response status chunks complete" "status \<noteq> 200"
    by blast
  then have "\<exists>ms. st' = st\<lparr>requests := requests st @ [url], out := ms\<rparr>"
  proof cases
    case 1
    with a ne show ?thesis
      using download_file_request_exception[of env url n st t] by auto
  next
    case 2
    with a ne show ?thesis
      using download_file_failed_status[of env url n st t status chunks complete] by auto
  qed
  then obtain ms where "st' = st\<lparr>requests := requests st @ [url], out := ms\<rparr>" ..
  with ne show "files st' = files st \<and> dirs st' = dirs st \<and> \<not> path_exists st' (t @ [n])"
    by simp
qed

theorem failed_request_writes_nothing_witness:
  "download_file (env_with (Response 404 [''not found''] True)) ''https://cdn.test/pic.jpg''
       assets_folder st_fresh
     = Inr (None, st_fresh\<lparr>requests := [''https://cdn.test/pic.jpg''],
                            out := [FailedStatus 404 ''https://cdn.test/pic.jpg'']\<rparr>)
   \<and> download_file (env_with RequestException) ''https://cdn.test/pic.jpg''
       assets_folder st_fresh
     = Inr (None, st_fresh\<lparr>requests := [''https://cdn.test/pic.jpg''],
                            out := [RequestFailed ''https://cdn.test/pic.jpg'']\<rparr>)
   \<and> file_name_of (env_with (Response 404 [''not found''] True)) ''https://cdn.test/pic.jpg''
       = Inr ''pic.jpg''
   \<and> file_name_of (env_with RequestException) ''https://cdn.test/pic.jpg'' = Inr ''pic.jpg''
   \<and> files (st_fresh\<lparr>requests := [''https://cdn.test/pic.jpg''],
                       out := [FailedStatus 404 ''https://cdn.test/pic.jpg'']\<rparr>) = files st_fresh
   \<and> \<not> path_exists (st_fresh\<lparr>requests := [''https://cdn.test/pic.jpg''],
                       out := [FailedStatus 404 ''https://cdn.test/pic.jpg'']\<rparr>)
          (assets_folder @ [''pic.jpg''])
   \<and> \<not> path_exists (st_fresh\<lparr>requests := [''https://cdn.test/pic.jpg''],
                       out := [RequestFailed ''https://cdn.test/pic.jpg'']\<rparr>)
          (assets_folder @ [''pic.jpg''])"
proof -
  let ?e1 = "env_with (Response 404 [''not found''] True)"
  let ?e2 = "env_with RequestException"
  let ?u = "''https://cdn.test/pic.jpg''"
  let ?s1 = "st_fresh\<lparr>requests := [?u], out := [FailedStatus 404 ?u]\<rparr>"
  let ?s2 = "st_fresh\<lparr>requests := [?u], out := [RequestFailed ?u]\<rparr>"
  have 1: "download_file ?e1 ?u assets_folder st_fresh = Inr (None, ?s1)" by code_simp
  have 2: "download_file ?e2 ?u assets_folder st_fresh = Inr (None, ?s2)" by code_simp
  have 3: "file_name_of ?e1 ?u = Inr ''pic.jpg''" by code_simp
  have 4: "file_name_of ?e2 ?u = Inr ''pic.jpg''" by code_simp
  have 5: "net ?e1 (length (requests st_fresh)) ?u = Response 404 [''not found''] True"
    by (simp add: env_with_def)
  have 6: "net ?e2 (length (requests st_fresh)) ?u = RequestException"
    by (simp add: env_with_def)
  have 7: "(404::nat) \<noteq> 200" by simp
  from failed_request_writes_nothing[of ?e1 ?u assets_folder st_fresh ?s1 "''pic.jpg''"] 1 3 5 7
  have a: "files ?s1 = files st_fresh \<and> \<not> path_exists ?s1 (assets_folder @ [''pic.jpg''])"
    by blast
  from failed_request_writes_nothing[of ?e2 ?u assets_folder st_fresh ?s2 "''pic.jpg''"] 2 4 6
  have b: "\<not> path_exists ?s2 (assets_folder @ [''pic.jpg''])"
    by blast
  from 1 2 3 4 a b show ?thesis by blast
qed

text \<open>
  A stream that breaks after the status 200 has been seen: the call fails and the
  destination holds the chunks that had arrived.
\<close>

theorem partial_file_counterexample:
  "download_file (env_with (Response 200 [''PAR''] False)) ''https://cdn.test/pic.jpg''
       assets_folder st_fresh
     = Inr (None, \<lparr>dirs = [assets_folder, fonts_folder],
                   files = [([''assets'', ''pic.jpg''], ''PAR'')],
                   requests = [''https://cdn.test/pic.jpg''],
                   out = [RequestFailed ''https://cdn.test/pic.jpg'']\<rparr>)
   \<and> path_exists \<lparr>dirs = [assets_folder, fonts_folder],
                   files = [([''assets'', ''pic.jpg''], ''PAR'')],
                   requests = [''https://cdn.test/pic.jpg''],
                   out = [RequestFailed ''https://cdn.test/pic.jpg'']\<rparr>
        (assets_folder @ [''pic.jpg''])"
  by code_simp





section \<open>The text that replaces a reference\<close>

lemma norm_acc_nonempty:
  "list_all (\<lambda>c. c \<noteq> []) acc \<Longrightarrow> list_all (\<lambda>c. c \<noteq> []) (norm_acc acc p)"
proof (induction p arbitrary: acc)
  case Nil
  then show ?case by simp
next
  case (Cons c cs)
  from Cons.prems have "list_all (\<lambda>c. c \<noteq> []) (tl acc)"
    by (cases acc) simp_all
  with Cons show ?case by simp
qed

lemma slash_join_nonempty: "cs \<noteq> [] \<Longrightarrow> hd cs \<noteq> [] \<Longrightarrow> slash_join cs \<noteq> []"
  by (induction cs rule: slash_join.induct) simp_all

lemma relpath_nonempty: "relpath p \<noteq> []"
proof (cases "normpath p")
  case Nil
  then show ?thesis by (simp add: relpath_def)
next
  case (Cons c cs)
  have "list_all (\<lambda>c. c \<noteq> []) (normpath p)"
    unfolding normpath_def by (rule norm_acc_nonempty) simp
  with Cons have "c \<noteq> []" by simp
  with Cons show ?thesis
    using slash_join_nonempty[of "c # cs"] by (simp add: relpath_def)
qed












section \<open>What a run keeps\<close>

lemma for_each_invariant:
  assumes "for_each body xs a = Inr b" "P a"
    and "\<And>x a a'. x \<in> set xs \<Longrightarrow> P a \<Longrightarrow> body x a = Inr a' \<Longrightarrow> P a'"
  shows "P b"
  using assms
proof (induction xs arbitrary: a)
  case Nil
  then show ?case by simp
next
  case (Cons x xs)
  from Cons.prems(1) obtain a' where a': "body x a = Inr a'" "for_each body xs a' = Inr b"
    by (auto split: sum.splits)
  have pa: "P a'" using Cons.prems(3)[of x a a'] Cons.prems(2) a'(1) by simp
  show ?case by (rule Cons.IH[OF a'(2) pa]) (use Cons.prems(3) in auto)
qed

text \<open>
  \<open>keeps st st'\<close>: the directories of \<open>st\<close> are those of \<open>st'\<close>, and every file of \<open>st\<close>
  is a file of \<open>st'\<close>.
\<close>

definition keeps :: "state \<Rightarrow> state \<Rightarrow> bool" where
  "keeps st st' = (dirs st' = dirs st \<and> (\<forall>q. map_of (files st) q \<noteq> None \<longrightarrow> map_of (files st') q \<noteq> None))"

lemma keeps_refl: "keeps st st"
  by (simp add: keeps_def)

lemma keeps_trans: "keeps st st' \<Longrightarrow> keeps st' st'' \<Longrightarrow> keeps st st''"
  by (simp add: keeps_def)

lemma keeps_path_exists: "keeps st st' \<Longrightarrow> path_exists st p \<Longrightarrow> path_exists st' p"
  by (auto simp: keeps_def path_exists_def is_dir_def)


lemma download_file_keeps:
  assumes "download_file env url t st = Inr (r, st')"
  shows "keeps st st'"
  using assms
  by (auto simp: download_file_def Let_def keeps_def update_conv'
      split: sum.splits response.splits if_splits)

lemma srcset_step_keeps:
  assumes "srcset_step env url (c, st) = Inr (c', st')"
  shows "keeps st st'"
  using assms download_file_keeps
  by (auto simp: srcset_step_def keeps_refl split: sum.splits if_splits option.splits)

lemma ref_step_keeps:
  assumes "ref_step env url (c, m, st) = Inr (c', m', st')"
  shows "keeps st st'"
  using assms download_file_keeps
  by (auto simp: ref_step_def split: sum.splits if_splits option.splits)

lemma replace_urls_in_srcset_keeps:
  assumes "replace_urls_in_srcset env c st = Inr (c', st')"
  shows "keeps st st'"
proof -
  have "keeps st (snd (c', st'))"
    using assms unfolding replace_urls_in_srcset_def
  proof (rule for_each_invariant[where P = "\<lambda>a. keeps st (snd a)"])
    show "keeps st (snd (c, st))" by (simp add: keeps_refl)
  next
    fix x a a'
    assume "keeps st (snd a)" "srcset_step env x a = Inr a'"
    then show "keeps st (snd a')"
      using srcset_step_keeps[of env x "fst a" "snd a" "fst a'" "snd a'"] keeps_trans
      by auto
  qed
  then show ?thesis by simp
qed

lemma ref_loop_keeps:
  assumes "for_each (ref_step env) us (c, m, st) = Inr (c', m', st')"
  shows "keeps st st'"
proof -
  have "keeps st (snd (snd (c', m', st')))"
    using assms
  proof (rule for_each_invariant[where P = "\<lambda>a. keeps st (snd (snd a))"])
    show "keeps st (snd (snd (c, m, st)))" by (simp add: keeps_refl)
  next
    fix x a a'
    assume "keeps st (snd (snd a))" "ref_step env x a = Inr a'"
    then show "keeps st (snd (snd a'))"
      using ref_step_keeps[of env x "fst a" "fst (snd a)" "snd (snd a)"
          "fst a'" "fst (snd a')" "snd (snd a')"] keeps_trans
      by auto
  qed
  then show ?thesis by simp
qed

lemma keeps_write_existing:
  "map_of (files st) fp \<noteq> None \<Longrightarrow>
     keeps st (st\<lparr>files := AList.update fp c (files st), out := x\<rparr>)"
  by (auto simp: keeps_def update_conv')

lemma replace_references_keeps:
  assumes "replace_references env fp pat st = Inr st'"
  shows "keeps st st'"
proof -
  from assms obtain c0 c1 st1 c2 m st2 where
    c0: "map_of (files st) fp = Some c0"
    and s: "replace_urls_in_srcset env (universal_newlines c0) st = Inr (c1, st1)"
    and l: "for_each (ref_step env) (set_order env (findall pat c1)) (c1, False, st1)
              = Inr (c2, m, st2)"
    and r: "st' = (if m then st2\<lparr>files := AList.update fp c2 (files st2),
                                  out := out st2 @ [Updated fp]\<rparr> else st2)"
    by (auto simp: replace_references_def split: option.splits sum.splits if_splits)
  have k2: "keeps st st2"
    using replace_urls_in_srcset_keeps[OF s] ref_loop_keeps[OF l] keeps_trans by blast
  with c0 have "map_of (files st2) fp \<noteq> None" by (simp add: keeps_def)
  then have "keeps st2 st'" using r keeps_write_existing keeps_refl by simp
  with k2 show ?thesis using keeps_trans by blast
qed

lemma process_file_keeps:
  assumes "process_file env d file st = Inr st'"
  shows "keeps st st'"
proof (cases "suffix ''.html'' (lower_str file)")
  case True
  with assms obtain s1 s2 where
    1: "replace_references env (d @ [file]) html_img_pattern st = Inr s1"
    and 2: "replace_references env (d @ [file]) html_pdf_pattern s1 = Inr s2"
    and 3: "replace_references env (d @ [file]) html_video_pattern s2 = Inr st'"
    by (auto simp: process_file_def Let_def split: sum.splits)
  from replace_references_keeps[OF 1] replace_references_keeps[OF 2]
    replace_references_keeps[OF 3]
  show ?thesis by (meson keeps_trans)
next
  case False
  show ?thesis
  proof (cases "suffix ''.css'' (lower_str file)")
    case True
    with False assms have "replace_references env (d @ [file]) css_asset_pattern st = Inr st'"
      by (simp add: process_file_def Let_def)
    then show ?thesis by (rule replace_references_keeps)
  next
    case no: False
    with False assms have "st' = st" by (simp add: process_file_def Let_def)
    then show ?thesis by (simp add: keeps_refl)
  qed
qed














section \<open>A document whose only references are in a srcset\<close>

text \<open>
  C2. The srcset pass of \<open>replace_references\<close> changes the text in memory, but the text
  is written only when the loop over the matches of the type-specific pattern has set
  \<open>modified\<close>. For a document with nothing but a srcset, the assets are downloaded, the
  srcset pass yields a rewritten text, and the run leaves the document on disk as it
  was.
\<close>

theorem srcset_only_change_is_not_written:
  "replace_urls_in_srcset env_ok
     ''<img srcset=\"https://cdn.test/a.png 1x, https://cdn.test/b.png 2x\">'' st_fresh
   = Inr (''<img srcset=\"assets/a.png 1x, assets/b.png 2x\">'',
          \<lparr>dirs = [assets_folder, fonts_folder],
           files = [([''assets'', ''a.png''], ''DATA''), ([''assets'', ''b.png''], ''DATA'')],
           requests = [''https://cdn.test/a.png'', ''https://cdn.test/b.png''],
           out = [Downloaded ''a.png'', Downloaded ''b.png'']\<rparr>)
   \<and> main env_ok
        \<lparr>dirs = [],
         files = [([''index.html''],
                   ''<img srcset=\"https://cdn.test/a.png 1x, https://cdn.test/b.png 2x\">'')],
         requests = [], out = []\<rparr>
      = Inr \<lparr>dirs = [assets_folder, fonts_folder],
             files = [([''index.html''],
                       ''<img srcset=\"https://cdn.test/a.png 1x, https://cdn.test/b.png 2x\">''),
                      ([''assets'', ''a.png''], ''DATA''), ([''assets'', ''b.png''], ''DATA'')],
             requests = [''https://cdn.test/a.png'', ''https://cdn.test/b.png''],
             out = [Downloaded ''a.png'', Downloaded ''b.png'',
                    AlreadyExists ''a.png'', AlreadyExists ''b.png'',
                    AlreadyExists ''a.png'', AlreadyExists ''b.png'']\<rparr>"
  by code_simp

section \<open>Which files a run touches\<close>

lemma download_file_frame:
  assumes "download_file env url t st = Inr (r, st')" "map_of (files st) q = Some c"
  shows "map_of (files st') q = Some c"
  using assms
  by (auto simp: download_file_def Let_def path_exists_def update_conv'
      split: sum.splits response.splits if_splits)

lemma srcset_step_frame:
  assumes "srcset_step env url (x, st) = Inr (x', st')" "map_of (files st) q = Some c"
  shows "map_of (files st') q = Some c"
  using assms download_file_frame
  by (auto simp: srcset_step_def split: sum.splits if_splits option.splits)

lemma ref_step_frame:
  assumes "ref_step env url (x, m, st) = Inr (x', m', st')" "map_of (files st) q = Some c"
  shows "map_of (files st') q = Some c"
  using assms download_file_frame
  by (auto simp: ref_step_def split: sum.splits if_splits option.splits)

lemma replace_urls_in_srcset_frame:
  assumes "replace_urls_in_srcset env x st = Inr (x', st')" "map_of (files st) q = Some c"
  shows "map_of (files st') q = Some c"
proof -
  have "map_of (files (snd (x', st'))) q = Some c"
    using assms(1) unfolding replace_urls_in_srcset_def
  proof (rule for_each_invariant[where P = "\<lambda>a. map_of (files (snd a)) q = Some c"])
    show "map_of (files (snd (x, st))) q = Some c" using assms(2) by simp
  next
    fix u a a'
    assume "map_of (files (snd a)) q = Some c" "srcset_step env u a = Inr a'"
    then show "map_of (files (snd a')) q = Some c"
      using srcset_step_frame[of env u "fst a" "snd a" "fst a'" "snd a'" q c] by simp
  qed
  then show ?thesis by simp
qed

lemma ref_loop_frame:
  assumes "for_each (ref_step env) us (x, m, st) = Inr (x', m', st')"
    "map_of (files st) q = Some c"
  shows "map_of (files st') q = Some c"
proof -
  have "map_of (files (snd (snd (x', m', st')))) q = Some c"
    using assms(1)
  proof (rule for_each_invariant[where P = "\<lambda>a. map_of (files (snd (snd a))) q = Some c"])
    show "map_of (files (snd (snd (x, m, st)))) q = Some c" using assms(2) by simp
  next
    fix u a a'
    assume "map_of (files (snd (snd a))) q = Some c" "ref_step env u a = Inr a'"
    then show "map_of (files (snd (snd a'))) q = Some c"
      using ref_step_frame[of env u "fst a" "fst (snd a)" "snd (snd a)"
          "fst a'" "fst (snd a')" "snd (snd a')" q c] by simp
  qed
  then show ?thesis by simp
qed

lemma replace_references_frame:
  assumes "replace_references env fp pat st = Inr st'" "map_of (files st) q = Some c" "q \<noteq> fp"
  shows "map_of (files st') q = Some c"
proof -
  from assms(1) obtain c0 c1 st1 c2 m st2 where
    s: "replace_urls_in_srcset env (universal_newlines c0) st = Inr (c1, st1)"
    and l: "for_each (ref_step env) (set_order env (findall pat c1)) (c1, False, st1)
              = Inr (c2, m, st2)"
    and r: "st' = (if m then st2\<lparr>files := AList.update fp c2 (files st2),
                                  out := out st2 @ [Updated fp]\<rparr> else st2)"
    by (auto simp: replace_references_def split: option.splits sum.splits if_splits)
  have "map_of (files st2) q = Some c"
    using replace_urls_in_srcset_frame[OF s assms(2)] ref_loop_frame[OF l] by simp
  with r assms(3) show ?thesis by (simp add: update_conv')
qed

text \<open>The names that \<open>process_files\<close> takes for documents.\<close>

definition is_html :: "string \<Rightarrow> bool" where
  "is_html file = suffix ''.html'' (lower_str file)"

definition is_css :: "string \<Rightarrow> bool" where
  "is_css file = suffix ''.css'' (lower_str file)"




text \<open>Every element of the list that a loop runs over gets its turn.\<close>

lemma for_each_keeps:
  assumes "for_each body xs a = Inr b"
    and "\<And>y s s'. body y s = Inr s' \<Longrightarrow> keeps s s'"
  shows "keeps a b"
  using assms(1)
  by (rule for_each_invariant[where P = "keeps a"])
     (auto intro: keeps_refl keeps_trans assms(2))


lemma listdir_member:
  assumes "map_of (files st) (d @ [name]) \<noteq> None"
  shows "name \<in> set (listdir st d)"
proof -
  from assms have mem: "d @ [name] \<in> fst ` set (files st)"
    by (simp add: map_of_eq_None_iff)
  show ?thesis
    unfolding listdir_def set_map set_filter
  proof (rule image_eqI[where x = "d @ [name]"])
    show "name = last (d @ [name])" by simp
    show "d @ [name] \<in> {x \<in> fst ` set (files st). x \<noteq> [] \<and> butlast x = d}"
      using mem by simp
  qed
qed


lemma startup_keeps:
  assumes "startup st = Inr s1"
  shows "files s1 = files st" "set (dirs st) \<subseteq> set (dirs s1)"
  using assms
  by (auto simp: startup_def makedirs_def split: sum.splits if_splits)




section \<open>Running the tool a second time\<close>

text \<open>
  \<open>quiet st st'\<close>: from \<open>st\<close> to \<open>st'\<close> no file was written, no directory made and no
  request sent, and nothing was printed but lines \<open>Already exists\<close>.
\<close>

definition is_already :: "message \<Rightarrow> bool" where
  "is_already m = (case m of AlreadyExists n \<Rightarrow> True | _ \<Rightarrow> False)"

definition quiet :: "state \<Rightarrow> state \<Rightarrow> bool" where
  "quiet st st' =
     (files st' = files st \<and> dirs st' = dirs st \<and> requests st' = requests st
      \<and> take (length (out st)) (out st') = out st
      \<and> list_all is_already (drop (length (out st)) (out st')))"

text \<open>A URL whose download finds its file on disk.\<close>

definition resolves_locally :: "env \<Rightarrow> state \<Rightarrow> string \<Rightarrow> bool" where
  "resolves_locally env st url =
     (case folder_for env url of
        Inl e \<Rightarrow> False
      | Inr t \<Rightarrow> (case file_name_of env url of
                    Inl e \<Rightarrow> False
                  | Inr n \<Rightarrow> path_exists st (t @ [n])))"

text \<open>A srcset candidate that the srcset pass skips or finds on disk.\<close>

definition candidate_ok :: "env \<Rightarrow> state \<Rightarrow> string \<Rightarrow> bool" where
  "candidate_ok env st url = (if prefix ''http'' url then resolves_locally env st url else True)"

text \<open>The text that the srcset pass yields when every candidate is found on disk.\<close>

definition local_text :: "env \<Rightarrow> string \<Rightarrow> string" where
  "local_text env url =
     (case folder_for env url of
        Inl e \<Rightarrow> []
      | Inr t \<Rightarrow> (case file_name_of env url of
                    Inl e \<Rightarrow> []
                  | Inr n \<Rightarrow> fwd_slashes (relpath (t @ [n]))))"

fun srcset_local :: "env \<Rightarrow> string list \<Rightarrow> string \<Rightarrow> string" where
  "srcset_local env [] content = content"
| "srcset_local env (url # urls) content =
     srcset_local env urls
       (if prefix ''http'' url then str_replace url (local_text env url) content else content)"

definition doc_patterns :: "string \<Rightarrow> pattern list" where
  "doc_patterns file =
     (if is_html file then [html_img_pattern, html_pdf_pattern, html_video_pattern]
      else if is_css file then [css_asset_pattern]
      else [])"

text \<open>
  A document is settled when every srcset candidate that starts with \<open>http\<close> is found on
  disk, and the text that the srcset pass then yields has no match of the document's
  patterns. A tree is settled when its documents are.
\<close>

definition settled_doc :: "env \<Rightarrow> state \<Rightarrow> string \<Rightarrow> string \<Rightarrow> bool" where
  "settled_doc env st file content =
     (if doc_patterns file = [] then True
      else list_all (candidate_ok env st) (srcset_urls content)
           \<and> list_all (\<lambda>pat. findall pat (srcset_local env (srcset_urls content) content) = [])
               (doc_patterns file))"

definition settled :: "env \<Rightarrow> state \<Rightarrow> bool" where
  "settled env st =
     list_all (\<lambda>p. case map_of (files st) p of
                       None \<Rightarrow> True
                     | Some raw \<Rightarrow> settled_doc env st (last p) (universal_newlines raw))
       (map fst (files st))"

lemma quiet_refl: "quiet st st"
  by (simp add: quiet_def)

lemma quiet_trans:
  assumes "quiet st st'" "quiet st' st''"
  shows "quiet st st''"
proof -
  let ?a = "out st" and ?b = "out st'" and ?c = "out st''"
  from assms(1) obtain x where x: "?b = ?a @ x" "list_all is_already x"
    unfolding quiet_def by (metis append_take_drop_id)
  from assms(2) obtain y where y: "?c = ?b @ y" "list_all is_already y"
    unfolding quiet_def by (metis append_take_drop_id)
  from x y have "take (length ?a) ?c = ?a" "list_all is_already (drop (length ?a) ?c)"
    by simp_all
  with assms show ?thesis by (simp add: quiet_def)
qed

lemma quiet_already: "quiet st (st\<lparr>out := out st @ [AlreadyExists n]\<rparr>)"
  by (simp add: quiet_def is_already_def)

lemma quiet_path_exists: "quiet st st' \<Longrightarrow> path_exists st' p = path_exists st p"
  by (simp add: quiet_def path_exists_def is_dir_def)

lemma quiet_resolves: "quiet st st' \<Longrightarrow> resolves_locally env st' u = resolves_locally env st u"
  by (simp add: resolves_locally_def quiet_path_exists split: sum.splits)

lemma quiet_candidate: "quiet st st' \<Longrightarrow> candidate_ok env st' = candidate_ok env st"
  by (rule ext) (simp add: candidate_ok_def quiet_resolves)

lemma srcset_step_local:
  assumes "candidate_ok env st url"
  shows "\<exists>st'. srcset_step env url (content, st)
                 = Inr (srcset_local env [url] content, st') \<and> quiet st st'"
proof (cases "prefix ''http'' url")
  case False
  then show ?thesis by (simp add: srcset_step_def quiet_refl)
next
  case True
  with assms obtain t n where t: "folder_for env url = Inr t"
    and n: "file_name_of env url = Inr n" and ex: "path_exists st (t @ [n])"
    by (auto simp: candidate_ok_def resolves_locally_def split: sum.splits)
  from download_file_existing[OF n ex] t n True
  have "srcset_step env url (content, st)
      = Inr (srcset_local env [url] content, st\<lparr>out := out st @ [AlreadyExists n]\<rparr>)"
    by (simp add: srcset_step_def local_text_def relpath_nonempty)
  then show ?thesis using quiet_already by blast
qed

lemma srcset_loop_local:
  assumes "list_all (candidate_ok env st) us"
  shows "\<exists>st'. for_each (srcset_step env) us (content, st)
                 = Inr (srcset_local env us content, st') \<and> quiet st st'"
  using assms
proof (induction us arbitrary: content st)
  case Nil
  then show ?case by (simp add: quiet_refl)
next
  case (Cons u us)
  from Cons.prems have "candidate_ok env st u" by simp
  from srcset_step_local[OF this] obtain st1 where
    1: "srcset_step env u (content, st) = Inr (srcset_local env [u] content, st1)"
    and q1: "quiet st st1" by blast
  from Cons.prems q1
  have "list_all (candidate_ok env st1) us"
    by (simp add: quiet_candidate)
  from Cons.IH[OF this] obtain st2 where
    2: "for_each (srcset_step env) us (srcset_local env [u] content, st1)
          = Inr (srcset_local env us (srcset_local env [u] content), st2)"
    and q2: "quiet st1 st2" by blast
  from 1 2 have "for_each (srcset_step env) (u # us) (content, st)
      = Inr (srcset_local env (u # us) content, st2)" by simp
  with quiet_trans[OF q1 q2] show ?case by blast
qed

lemma replace_references_settled:
  assumes "map_of (files st) fp = Some raw" "content = universal_newlines raw"
    and "list_all (candidate_ok env st) (srcset_urls content)"
    and "findall pat (srcset_local env (srcset_urls content) content) = []"
    and "set_order env [] = []"
  shows "\<exists>st'. replace_references env fp pat st = Inr st' \<and> quiet st st'"
proof -
  from srcset_loop_local[OF assms(3)] obtain st1 where
    1: "replace_urls_in_srcset env content st
          = Inr (srcset_local env (srcset_urls content) content, st1)"
    and q: "quiet st st1"
    unfolding replace_urls_in_srcset_def by blast
  from 1 assms(1,2,4,5) have "replace_references env fp pat st = Inr st1"
    by (simp add: replace_references_def)
  with q show ?thesis by blast
qed

lemma for_each_total:
  assumes "P a"
    and "\<And>x a. x \<in> set xs \<Longrightarrow> P a \<Longrightarrow> \<exists>a'. body x a = Inr a' \<and> P a'"
  shows "\<exists>b. for_each body xs a = Inr b \<and> P b"
  using assms
proof (induction xs arbitrary: a)
  case Nil
  then show ?case by simp
next
  case (Cons x xs)
  from Cons.prems(2)[of x a] Cons.prems(1) obtain a' where a': "body x a = Inr a'" "P a'"
    by auto
  from Cons.IH[OF a'(2)] Cons.prems(2) obtain b where "for_each body xs a' = Inr b" "P b"
    by auto
  with a'(1) show ?case by simp
qed

lemma quiet_settled_doc:
  "quiet st st' \<Longrightarrow> settled_doc env st' file content = settled_doc env st file content"
  by (simp add: settled_doc_def quiet_candidate)

lemma settled_file:
  assumes "settled env st" "map_of (files st) (d @ [file]) = Some content"
  shows "settled_doc env st file (universal_newlines content)"
proof -
  from assms(2) have "(d @ [file], content) \<in> set (files st)" by (rule map_of_SomeD)
  then have "d @ [file] \<in> set (map fst (files st))" by force
  with assms(1)
  have "case map_of (files st) (d @ [file]) of
          None \<Rightarrow> True
        | Some raw \<Rightarrow> settled_doc env st (last (d @ [file])) (universal_newlines raw)"
    unfolding settled_def list_all_iff by (rule bspec)
  with assms(2) show ?thesis by simp
qed

lemma pattern_loop_settled:
  assumes "map_of (files st) fp = Some raw" "content = universal_newlines raw"
    and "list_all (candidate_ok env st) (srcset_urls content)"
    and "list_all (\<lambda>pat. findall pat (srcset_local env (srcset_urls content) content) = []) pats"
    and "set_order env [] = []"
  shows "\<exists>st'. for_each (\<lambda>pat s. replace_references env fp pat s) pats st = Inr st'
               \<and> quiet st st'"
proof (rule for_each_total[where P = "quiet st"])
  show "quiet st st" by (rule quiet_refl)
next
  fix pat s
  assume pat: "pat \<in> set pats" and q: "quiet st s"
  from q assms(1) have c: "map_of (files s) fp = Some raw" by (simp add: quiet_def)
  from q assms(3)
  have r: "list_all (candidate_ok env s) (srcset_urls content)" by (simp add: quiet_candidate)
  from pat assms(4) have f: "findall pat (srcset_local env (srcset_urls content) content) = []"
    by (simp add: list_all_iff)
  from replace_references_settled[OF c assms(2) r f assms(5)] obtain s' where
    "replace_references env fp pat s = Inr s'" "quiet s s'" by blast
  with q show "\<exists>s'. replace_references env fp pat s = Inr s' \<and> quiet st s'"
    using quiet_trans by blast
qed

lemma process_file_as_loop:
  "process_file env d file st
     = for_each (\<lambda>pat s. replace_references env (d @ [file]) pat s) (doc_patterns file) st"
  by (simp add: process_file_def doc_patterns_def is_html_def is_css_def Let_def
      split: sum.splits)

lemma process_file_settled:
  assumes "settled env st" "map_of (files st) (d @ [file]) \<noteq> None" "set_order env [] = []"
  shows "\<exists>st'. process_file env d file st = Inr st' \<and> quiet st st'"
proof -
  from assms(2) obtain raw where c: "map_of (files st) (d @ [file]) = Some raw" by auto
  define content where "content = universal_newlines raw"
  from settled_file[OF assms(1) c] have sd: "settled_doc env st file content"
    by (simp add: content_def)
  show ?thesis
  proof (cases "doc_patterns file = []")
    case True
    then show ?thesis by (simp add: process_file_as_loop quiet_refl)
  next
    case False
    with sd have
      "list_all (candidate_ok env st) (srcset_urls content)"
      "list_all (\<lambda>pat. findall pat (srcset_local env (srcset_urls content) content) = [])
         (doc_patterns file)"
      by (simp_all add: settled_doc_def)
    from pattern_loop_settled[OF c content_def this assms(3)] show ?thesis
      by (simp add: process_file_as_loop)
  qed
qed

lemma quiet_settled: "quiet st st' \<Longrightarrow> settled env st \<Longrightarrow> settled env st'"
proof -
  assume q: "quiet st st'" and s: "settled env st"
  from q have f: "files st' = files st" by (simp add: quiet_def)
  from s show ?thesis
    unfolding settled_def f by (simp add: quiet_settled_doc[OF q] cong: option.case_cong)
qed

lemma listdir_file:
  assumes "file \<in> set (listdir st d)"
  shows "map_of (files st) (d @ [file]) \<noteq> None"
proof -
  from assms obtain p where p: "p \<in> set (map fst (files st))" "p \<noteq> []" "butlast p = d"
    "last p = file"
    by (auto simp: listdir_def)
  then have "d @ [file] = p" by (metis append_butlast_last_id)
  with p(1) show ?thesis by (simp add: map_of_eq_None_iff)
qed

lemma process_dir_settled:
  assumes "settled env st" "set_order env [] = []"
  shows "\<exists>st'. process_dir env d st = Inr st' \<and> quiet st st'"
  unfolding process_dir_def
proof (rule for_each_total[where P = "quiet st"])
  show "quiet st st" by (rule quiet_refl)
next
  fix name s
  assume f: "name \<in> set (listdir st d)" and q: "quiet st s"
  from listdir_file[OF f] q have "map_of (files s) (d @ [name]) \<noteq> None" by (simp add: quiet_def)
  from process_file_settled[OF quiet_settled[OF q assms(1)] this assms(2)]
  obtain s' where "process_file env d name s = Inr s'" "quiet s s'" by blast
  with q show "\<exists>s'. process_file env d name s = Inr s' \<and> quiet st s'"
    using quiet_trans by blast
qed

lemma process_files_settled:
  assumes "settled env st" "set_order env [] = []"
  shows "\<exists>st'. process_files env st = Inr st' \<and> quiet st st'"
  unfolding process_files_def
proof (rule for_each_total[where P = "quiet st"])
  show "quiet st st" by (rule quiet_refl)
next
  fix d s
  assume q: "quiet st s"
  from process_dir_settled[OF quiet_settled[OF q assms(1)] assms(2)]
  obtain s' where "process_dir env d s = Inr s'" "quiet s s'" by blast
  with q show "\<exists>s'. process_dir env d s = Inr s' \<and> quiet st s'"
    using quiet_trans by blast
qed

text \<open>A directory that no file is named after stays so during a run.\<close>

definition bare_dir :: "path \<Rightarrow> state \<Rightarrow> bool" where
  "bare_dir q st = (is_dir st q \<and> map_of (files st) q = None)"

lemma download_file_bare:
  assumes "download_file env url t st = Inr (r, st')" "bare_dir q st"
  shows "bare_dir q st'"
  using assms
  by (auto simp: download_file_def Let_def path_exists_def bare_dir_def update_conv'
      split: sum.splits response.splits if_splits)

lemma srcset_step_bare:
  assumes "srcset_step env url (x, st) = Inr (x', st')" "bare_dir q st"
  shows "bare_dir q st'"
  using assms download_file_bare
  by (auto simp: srcset_step_def split: sum.splits if_splits option.splits)

lemma ref_step_bare:
  assumes "ref_step env url (x, m, st) = Inr (x', m', st')" "bare_dir q st"
  shows "bare_dir q st'"
  using assms download_file_bare
  by (auto simp: ref_step_def split: sum.splits if_splits option.splits)

lemma replace_references_bare:
  assumes "replace_references env fp pat st = Inr st'" "bare_dir q st"
  shows "bare_dir q st'"
proof -
  from assms(1) obtain c0 c1 st1 c2 m st2 where
    c0: "map_of (files st) fp = Some c0"
    and s: "replace_urls_in_srcset env (universal_newlines c0) st = Inr (c1, st1)"
    and l: "for_each (ref_step env) (set_order env (findall pat c1)) (c1, False, st1)
              = Inr (c2, m, st2)"
    and r: "st' = (if m then st2\<lparr>files := AList.update fp c2 (files st2),
                                  out := out st2 @ [Updated fp]\<rparr> else st2)"
    by (auto simp: replace_references_def split: option.splits sum.splits if_splits)
  have "bare_dir q (snd (c1, st1))"
    using s unfolding replace_urls_in_srcset_def
  proof (rule for_each_invariant[where P = "\<lambda>a. bare_dir q (snd a)"])
    show "bare_dir q (snd (universal_newlines c0, st))" using assms(2) by simp
  next
    fix u a a'
    assume "bare_dir q (snd a)" "srcset_step env u a = Inr a'"
    then show "bare_dir q (snd a')"
      using srcset_step_bare[of env u "fst a" "snd a" "fst a'" "snd a'" q] by simp
  qed
  then have b1: "bare_dir q st1" by simp
  have "bare_dir q (snd (snd (c2, m, st2)))"
    using l
  proof (rule for_each_invariant[where P = "\<lambda>a. bare_dir q (snd (snd a))"])
    show "bare_dir q (snd (snd (c1, False, st1)))" using b1 by simp
  next
    fix u a a'
    assume "bare_dir q (snd (snd a))" "ref_step env u a = Inr a'"
    then show "bare_dir q (snd (snd a'))"
      using ref_step_bare[of env u "fst a" "fst (snd a)" "snd (snd a)"
          "fst a'" "fst (snd a')" "snd (snd a')" q] by simp
  qed
  then have b2: "bare_dir q st2" by simp
  have "keeps st st2"
    using replace_urls_in_srcset_keeps[OF s] ref_loop_keeps[OF l] keeps_trans by blast
  with c0 have "map_of (files st2) fp \<noteq> None" by (simp add: keeps_def)
  with b2 have "fp \<noteq> q" by (auto simp: bare_dir_def)
  with b2 r show ?thesis by (auto simp: bare_dir_def update_conv')
qed

lemma process_file_bare:
  assumes "process_file env d file st = Inr st'" "bare_dir q st"
  shows "bare_dir q st'"
  using assms(1) unfolding process_file_as_loop
  by (rule for_each_invariant[where P = "bare_dir q"])
     (use assms(2) replace_references_bare in auto)

lemma process_files_bare:
  assumes "process_files env st = Inr st'" "bare_dir q st"
  shows "bare_dir q st'"
  using assms(1) unfolding process_files_def
proof (rule for_each_invariant[where P = "bare_dir q"])
  show "bare_dir q st" by (rule assms(2))
next
  fix d s s'
  assume b: "bare_dir q s" and p: "process_dir env d s = Inr s'"
  show "bare_dir q s'"
    using p unfolding process_dir_def
    by (rule for_each_invariant[where P = "bare_dir q"])
       (use b process_file_bare in auto)
qed

lemma startup_bare:
  assumes "startup st0 = Inr st"
  shows "bare_dir assets_folder st \<and> bare_dir fonts_folder st"
  using assms
  by (auto simp: startup_def makedirs_def bare_dir_def is_dir_def
      split: sum.splits if_splits)

lemma startup_again:
  assumes "bare_dir assets_folder st" "bare_dir fonts_folder st"
  shows "startup st = Inr st"
  using assms by (simp add: startup_def makedirs_def bare_dir_def)

lemma main_then_startup:
  assumes "main env st0 = Inr st1"
  shows "startup st1 = Inr st1"
proof -
  from assms obtain s where s: "startup st0 = Inr s" "process_files env s = Inr st1"
    by (auto simp: main_def split: sum.splits)
  from startup_bare[OF s(1)] process_files_bare[OF s(2)] show ?thesis
    by (simp add: startup_again)
qed

section \<open>What the first run leaves\<close>

text \<open>
  \<open>resolved st\<close>: no download of the run so far has failed, that is, none of the lines
  printed reports a status other than 200 or a failed request.
\<close>

definition not_failure :: "message \<Rightarrow> bool" where
  "not_failure m = (case m of FailedStatus k u \<Rightarrow> False | RequestFailed u \<Rightarrow> False | _ \<Rightarrow> True)"

definition resolved :: "state \<Rightarrow> bool" where
  "resolved st = list_all not_failure (out st)"

text \<open>The text that the loop of \<open>replace_references\<close> puts for a URL that is resolved.\<close>

definition ref_text :: "env \<Rightarrow> string \<Rightarrow> string \<Rightarrow> string" where
  "ref_text env url content = str_replace url (CHR ''/'' # local_text env url) content"

text \<open>
  What one call of \<open>replace_references\<close> leaves of a document when every download gives
  a path: the text as it was when the pattern finds nothing after the srcset pass, and
  else the text of the srcset pass with every match replaced.
\<close>

definition pass_text :: "env \<Rightarrow> pattern \<Rightarrow> string \<Rightarrow> string" where
  "pass_text env pat raw =
     (let c1 = srcset_local env (srcset_urls (universal_newlines raw)) (universal_newlines raw);
          us = set_order env (findall pat c1)
      in if us = [] then raw else fold (ref_text env) us c1)"

definition rewrite_doc :: "env \<Rightarrow> string \<Rightarrow> string \<Rightarrow> string" where
  "rewrite_doc env file raw = fold (pass_text env) (doc_patterns file) raw"

text \<open>
  A document is clean when its rewritten text has no srcset candidate starting with
  \<open>http\<close> that the document did not have before, and no match of the document's
  patterns once the srcset candidates are replaced: the replacements have joined no new
  URL.
\<close>

definition clean_doc :: "env \<Rightarrow> string \<Rightarrow> string \<Rightarrow> bool" where
  "clean_doc env file raw =
     (if doc_patterns file = [] then True
      else (let c = universal_newlines (rewrite_doc env file raw) in
            list_all (\<lambda>u. if prefix ''http'' u
                           then u \<in> set (srcset_urls (universal_newlines raw)) else True)
              (srcset_urls c)
            \<and> list_all (\<lambda>pat. findall pat (srcset_local env (srcset_urls c) c) = [])
                (doc_patterns file)))"

definition clean :: "env \<Rightarrow> state \<Rightarrow> bool" where
  "clean env st = list_all (\<lambda>(p, raw). clean_doc env (last p) raw) (files st)"

text \<open>Every file is in the root or in a directory of the tree.\<close>

definition in_tree :: "state \<Rightarrow> bool" where
  "in_tree st = list_all (\<lambda>p. p \<noteq> [] \<and> is_dir st (butlast p)) (map fst (files st))"

text \<open>No file that the run has made is an HTML or a CSS document.\<close>

definition no_new_documents :: "state \<Rightarrow> state \<Rightarrow> bool" where
  "no_new_documents st st' =
     list_all (\<lambda>p. if map_of (files st) p = None then doc_patterns (last p) = [] else True)
       (map fst (files st'))"

text \<open>The lines printed are never taken back.\<close>

lemma prefix_out_trans: "prefix a b \<Longrightarrow> prefix b c \<Longrightarrow> prefix a (c :: message list)"
  by (auto simp: prefix_def)

lemma resolved_prefix: "prefix (out s) (out s') \<Longrightarrow> resolved s' \<Longrightarrow> resolved s"
  by (auto simp: resolved_def prefix_def)

lemma for_each_out:
  assumes "for_each body xs a = Inr b"
    and "\<And>y s s'. body y s = Inr s' \<Longrightarrow> prefix (out (f s)) (out (f s'))"
  shows "prefix (out (f a)) (out (f b))"
  using assms(1)
  by (rule for_each_invariant[where P = "\<lambda>s. prefix (out (f a)) (out (f s))"])
     (auto intro: prefix_out_trans assms(2))

lemma for_each_keeps_part:
  assumes "for_each body xs a = Inr b"
    and "\<And>y s s'. body y s = Inr s' \<Longrightarrow> keeps (f s) (f s')"
  shows "keeps (f a) (f b)"
  using assms(1)
  by (rule for_each_invariant[where P = "\<lambda>s. keeps (f a) (f s)"])
     (auto intro: keeps_refl keeps_trans assms(2))

lemma download_file_out:
  assumes "download_file env url t st = Inr (r, st')"
  shows "prefix (out st) (out st')"
  using assms
  by (auto simp: download_file_def Let_def split: sum.splits response.splits if_splits)

lemma srcset_step_out:
  assumes "srcset_step env url (c, st) = Inr (c', st')"
  shows "prefix (out st) (out st')"
  using assms download_file_out
  by (auto simp: srcset_step_def split: sum.splits if_splits option.splits)

lemma ref_step_out:
  assumes "ref_step env url (c, m, st) = Inr (c', m', st')"
  shows "prefix (out st) (out st')"
  using assms download_file_out
  by (auto simp: ref_step_def split: sum.splits if_splits option.splits)

lemma srcset_loop_out:
  assumes "for_each (srcset_step env) us (c, st) = Inr (c', st')"
  shows "prefix (out st) (out st')"
proof -
  have "prefix (out (snd (c, st))) (out (snd (c', st')))"
  proof (rule for_each_out[OF assms, where f = snd])
    fix y s s'
    assume "srcset_step env y s = Inr s'"
    then show "prefix (out (snd s)) (out (snd s'))"
      using srcset_step_out[of env y "fst s" "snd s" "fst s'" "snd s'"] by simp
  qed
  then show ?thesis by simp
qed

lemma srcset_loop_keeps:
  assumes "for_each (srcset_step env) us (c, st) = Inr (c', st')"
  shows "keeps st st'"
proof -
  have "keeps (snd (c, st)) (snd (c', st'))"
  proof (rule for_each_keeps_part[OF assms, where f = snd])
    fix y s s'
    assume "srcset_step env y s = Inr s'"
    then show "keeps (snd s) (snd s')"
      using srcset_step_keeps[of env y "fst s" "snd s" "fst s'" "snd s'"] by simp
  qed
  then show ?thesis by simp
qed

lemma ref_loop_out:
  assumes "for_each (ref_step env) us (c, m, st) = Inr (c', m', st')"
  shows "prefix (out st) (out st')"
proof -
  have "prefix (out (snd (snd (c, m, st)))) (out (snd (snd (c', m', st'))))"
  proof (rule for_each_out[OF assms, where f = "\<lambda>a. snd (snd a)"])
    fix y s s'
    assume "ref_step env y s = Inr s'"
    then show "prefix (out (snd (snd s))) (out (snd (snd s')))"
      using ref_step_out[of env y "fst s" "fst (snd s)" "snd (snd s)"
          "fst s'" "fst (snd s')" "snd (snd s')"] by simp
  qed
  then show ?thesis by simp
qed

lemma replace_references_out:
  assumes "replace_references env fp pat st = Inr st'"
  shows "prefix (out st) (out st')"
proof -
  from assms obtain c0 c1 st1 c2 m st2 where
    s: "replace_urls_in_srcset env (universal_newlines c0) st = Inr (c1, st1)"
    and l: "for_each (ref_step env) (set_order env (findall pat c1)) (c1, False, st1)
              = Inr (c2, m, st2)"
    and r: "st' = (if m then st2\<lparr>files := AList.update fp c2 (files st2),
                                  out := out st2 @ [Updated fp]\<rparr> else st2)"
    by (auto simp: replace_references_def split: option.splits sum.splits if_splits)
  from srcset_loop_out[OF s[unfolded replace_urls_in_srcset_def]] ref_loop_out[OF l]
  have "prefix (out st) (out st2)" by (rule prefix_out_trans)
  moreover from r have "prefix (out st2) (out st')" by simp
  ultimately show ?thesis by (rule prefix_out_trans)
qed

lemma pattern_loop_out:
  assumes "for_each (\<lambda>pat s. replace_references env fp pat s) pats st = Inr st'"
  shows "prefix (out st) (out st')"
  by (rule for_each_out[OF assms, where f = "\<lambda>s. s"]) (rule replace_references_out)

lemma pattern_loop_keeps:
  assumes "for_each (\<lambda>pat s. replace_references env fp pat s) pats st = Inr st'"
  shows "keeps st st'"
  by (rule for_each_keeps[OF assms]) (rule replace_references_keeps)

lemma process_file_out:
  assumes "process_file env d file st = Inr st'"
  shows "prefix (out st) (out st')"
  using assms unfolding process_file_as_loop by (rule pattern_loop_out)

lemma process_dir_out:
  assumes "process_dir env d st = Inr st'"
  shows "prefix (out st) (out st')"
  by (rule for_each_out[OF assms[unfolded process_dir_def], where f = "\<lambda>s. s"])
     (rule process_file_out)

text \<open>A file that another file's turn leaves as it was.\<close>

lemma process_file_other:
  assumes "process_file env d file st = Inr st'" "map_of (files st) q = Some c"
    and "q \<noteq> d @ [file]"
  shows "map_of (files st') q = Some c"
  using assms(1) unfolding process_file_as_loop
  by (rule for_each_invariant[where P = "\<lambda>s. map_of (files s) q = Some c"])
     (use assms(2,3) replace_references_frame in auto)

lemma keeps_candidate: "keeps s s' \<Longrightarrow> candidate_ok env s u \<Longrightarrow> candidate_ok env s' u"
  by (auto simp: candidate_ok_def resolves_locally_def keeps_path_exists
      split: sum.splits if_splits)

lemma keeps_candidates:
  "keeps s s' \<Longrightarrow> list_all (candidate_ok env s) us \<Longrightarrow> list_all (candidate_ok env s') us"
  by (auto simp: list_all_iff keeps_candidate)

text \<open>What the steps do when no download fails.\<close>

lemma download_file_resolved:
  assumes "download_file env url t st = Inr (r, st')" "resolved st'"
  shows "\<exists>n. file_name_of env url = Inr n \<and> r = Some (relpath (t @ [n]))
             \<and> path_exists st' (t @ [n])"
  using assms
  by (auto simp: download_file_def Let_def resolved_def not_failure_def path_exists_def
      update_conv' split: sum.splits response.splits if_splits)

lemma srcset_step_resolved:
  assumes "srcset_step env u (c, st) = Inr (c', st')" "resolved st'"
  shows "c' = srcset_local env [u] c \<and> candidate_ok env st' u"
proof (cases "prefix ''http'' u")
  case False
  with assms(1) show ?thesis by (simp add: srcset_step_def candidate_ok_def)
next
  case True
  with assms(1) obtain t r where t: "folder_for env u = Inr t"
    and d: "download_file env u t st = Inr (r, st')"
    and c': "c' = (case r of None \<Rightarrow> c
                   | Some lp \<Rightarrow> if lp = [] then c else str_replace u (fwd_slashes lp) c)"
    by (auto simp: srcset_step_def split: sum.splits option.splits if_splits)
  from download_file_resolved[OF d assms(2)] obtain n where
    n: "file_name_of env u = Inr n" "r = Some (relpath (t @ [n]))" "path_exists st' (t @ [n])"
    by blast
  with True t c' show ?thesis
    by (simp add: candidate_ok_def resolves_locally_def local_text_def relpath_nonempty)
qed

lemma srcset_loop_resolved:
  assumes "for_each (srcset_step env) us (c, st) = Inr (c', st')" "resolved st'"
  shows "c' = srcset_local env us c \<and> list_all (candidate_ok env st') us"
  using assms
proof (induction us arbitrary: c st)
  case Nil
  then show ?case by simp
next
  case (Cons u us)
  from Cons.prems(1) obtain c1 s1 where
    1: "srcset_step env u (c, st) = Inr (c1, s1)"
    and 2: "for_each (srcset_step env) us (c1, s1) = Inr (c', st')"
    by (auto split: sum.splits)
  from srcset_loop_out[OF 2] Cons.prems(2) have r1: "resolved s1" by (rule resolved_prefix)
  from srcset_step_resolved[OF 1 r1]
  have a: "c1 = srcset_local env [u] c" "candidate_ok env s1 u" by simp_all
  from Cons.IH[OF 2 Cons.prems(2)]
  have b: "c' = srcset_local env us c1" "list_all (candidate_ok env st') us" by simp_all
  from srcset_loop_keeps[OF 2] a(2) have "candidate_ok env st' u" by (rule keeps_candidate)
  with a b show ?case by simp
qed

lemma ref_step_resolved:
  assumes "ref_step env u (c, m, st) = Inr (c', m', st')" "resolved st'"
  shows "c' = ref_text env u c \<and> m'"
proof -
  from assms(1) obtain t r where t: "folder_for env u = Inr t"
    and d: "download_file env u t st = Inr (r, st')"
    and c': "(c', m') = (case r of None \<Rightarrow> (c, m)
                | Some lp \<Rightarrow> if lp = [] then (c, m)
                             else (str_replace u (CHR ''/'' # fwd_slashes lp) c, True))"
    by (auto simp: ref_step_def split: sum.splits option.splits if_splits)
  from download_file_resolved[OF d assms(2)] obtain n where
    n: "file_name_of env u = Inr n" "r = Some (relpath (t @ [n]))" by blast
  with t c' show ?thesis
    by (simp add: ref_text_def local_text_def relpath_nonempty)
qed

lemma ref_loop_resolved:
  assumes "for_each (ref_step env) us (c, m, st) = Inr (c', m', st')" "resolved st'"
  shows "c' = fold (ref_text env) us c \<and> m' = (m \<or> us \<noteq> [])"
  using assms
proof (induction us arbitrary: c m st)
  case Nil
  then show ?case by simp
next
  case (Cons u us)
  from Cons.prems(1) obtain c1 m1 s1 where
    1: "ref_step env u (c, m, st) = Inr (c1, m1, s1)"
    and 2: "for_each (ref_step env) us (c1, m1, s1) = Inr (c', m', st')"
    by (auto split: sum.splits)
  from ref_loop_out[OF 2] Cons.prems(2) have r1: "resolved s1" by (rule resolved_prefix)
  from ref_step_resolved[OF 1 r1] have a: "c1 = ref_text env u c" "m1" by simp_all
  from Cons.IH[OF 2 Cons.prems(2)]
  have b: "c' = fold (ref_text env) us c1" "m' = (m1 \<or> us \<noteq> [])" by simp_all
  with a show ?case by simp
qed

lemma replace_references_resolved:
  assumes "replace_references env fp pat st = Inr st'" "resolved st'"
    and "map_of (files st) fp = Some raw"
  shows "map_of (files st') fp = Some (pass_text env pat raw)
         \<and> list_all (candidate_ok env st') (srcset_urls (universal_newlines raw))"
proof -
  let ?c = "universal_newlines raw"
  from assms(1,3) obtain c1 st1 c2 m st2 where
    s: "replace_urls_in_srcset env ?c st = Inr (c1, st1)"
    and l: "for_each (ref_step env) (set_order env (findall pat c1)) (c1, False, st1)
              = Inr (c2, m, st2)"
    and r: "st' = (if m then st2\<lparr>files := AList.update fp c2 (files st2),
                                  out := out st2 @ [Updated fp]\<rparr> else st2)"
    by (auto simp: replace_references_def split: option.splits sum.splits if_splits)
  from r have "prefix (out st2) (out st')" by simp
  with assms(2) have r2: "resolved st2" using resolved_prefix by blast
  from ref_loop_out[OF l] r2 have r1: "resolved st1" by (rule resolved_prefix)
  from srcset_loop_resolved[OF s[unfolded replace_urls_in_srcset_def] r1]
  have c1: "c1 = srcset_local env (srcset_urls ?c) ?c"
    and ok1: "list_all (candidate_ok env st1) (srcset_urls ?c)" by simp_all
  from ref_loop_resolved[OF l r2]
  have c2: "c2 = fold (ref_text env) (set_order env (findall pat c1)) c1"
    and m: "m = (set_order env (findall pat c1) \<noteq> [])" by simp_all
  have raw2: "map_of (files st2) fp = Some raw"
    using replace_urls_in_srcset_frame[OF s assms(3)] ref_loop_frame[OF l] by simp
  have k: "keeps st1 st'"
  proof -
    have "keeps st1 st2" using ref_loop_keeps[OF l] .
    moreover from raw2 r have "keeps st2 st'"
      using keeps_write_existing[of st2 fp] keeps_refl by simp
    ultimately show ?thesis by (rule keeps_trans)
  qed
  from keeps_candidates[OF k ok1]
  have ok: "list_all (candidate_ok env st') (srcset_urls ?c)" .
  from r m c1 c2 raw2 have "map_of (files st') fp = Some (pass_text env pat raw)"
    by (simp add: pass_text_def Let_def update_conv')
  with ok show ?thesis by simp
qed

lemma pattern_loop_resolved:
  assumes "for_each (\<lambda>pat s. replace_references env fp pat s) pats st = Inr st'"
    and "resolved st'" "map_of (files st) fp = Some raw"
  shows "map_of (files st') fp = Some (fold (pass_text env) pats raw)
         \<and> (pats \<noteq> [] \<longrightarrow>
              list_all (candidate_ok env st') (srcset_urls (universal_newlines raw)))"
  using assms
proof (induction pats arbitrary: st raw)
  case Nil
  then show ?case by simp
next
  case (Cons pat pats)
  from Cons.prems(1) obtain s1 where
    1: "replace_references env fp pat st = Inr s1"
    and 2: "for_each (\<lambda>pat s. replace_references env fp pat s) pats s1 = Inr st'"
    by (auto split: sum.splits)
  from pattern_loop_out[OF 2] Cons.prems(2) have r1: "resolved s1" by (rule resolved_prefix)
  from replace_references_resolved[OF 1 r1 Cons.prems(3)]
  have a: "map_of (files s1) fp = Some (pass_text env pat raw)"
    and ok1: "list_all (candidate_ok env s1) (srcset_urls (universal_newlines raw))"
    by simp_all
  from Cons.IH[OF 2 Cons.prems(2) a]
  have b: "map_of (files st') fp = Some (fold (pass_text env) pats (pass_text env pat raw))"
    by simp
  from keeps_candidates[OF pattern_loop_keeps[OF 2] ok1] b show ?case by simp
qed

text \<open>
  A document of the tree during the run: \<open>untouched\<close> when it has the text it had at the
  start, \<open>done_doc\<close> when it has the rewritten text and every srcset candidate of this
  text is found on disk.
\<close>

definition untouched :: "path \<Rightarrow> string \<Rightarrow> state \<Rightarrow> bool" where
  "untouched p raw s = (map_of (files s) p = Some raw)"

definition done_doc :: "env \<Rightarrow> path \<Rightarrow> string \<Rightarrow> state \<Rightarrow> bool" where
  "done_doc env p raw s =
     (map_of (files s) p = Some (rewrite_doc env (last p) raw)
      \<and> list_all (candidate_ok env s)
           (srcset_urls (universal_newlines (rewrite_doc env (last p) raw))))"

lemma process_file_first_visit:
  assumes "process_file env d name st = Inr st'" "resolved st'"
    and "untouched (d @ [name]) raw st"
    and "doc_patterns name \<noteq> []" "clean_doc env name raw"
  shows "done_doc env (d @ [name]) raw st'"
proof -
  let ?c = "universal_newlines (rewrite_doc env name raw)"
  from assms(3) have raw: "map_of (files st) (d @ [name]) = Some raw"
    by (simp add: untouched_def)
  from pattern_loop_resolved[OF assms(1)[unfolded process_file_as_loop] assms(2) raw] assms(4)
  have a: "map_of (files st') (d @ [name]) = Some (rewrite_doc env name raw)"
    and ok: "list_all (candidate_ok env st') (srcset_urls (universal_newlines raw))"
    by (simp_all add: rewrite_doc_def)
  have "candidate_ok env st' u" if u: "u \<in> set (srcset_urls ?c)" for u
  proof (cases "prefix ''http'' u")
    case False
    then show ?thesis by (simp add: candidate_ok_def)
  next
    case True
    from assms(4,5) have "list_all (\<lambda>u. if prefix ''http'' u
                           then u \<in> set (srcset_urls (universal_newlines raw)) else True)
              (srcset_urls ?c)"
      by (simp add: clean_doc_def Let_def)
    with u True have "u \<in> set (srcset_urls (universal_newlines raw))"
      by (auto simp: list_all_iff)
    with ok show ?thesis by (simp add: list_all_iff)
  qed
  then have "list_all (candidate_ok env st') (srcset_urls ?c)" by (simp add: list_all_iff)
  with a show ?thesis by (simp add: done_doc_def)
qed

lemma process_file_done:
  assumes "process_file env d name st = Inr st'" "done_doc env (d @ [name]) raw st"
    and "doc_patterns name \<noteq> []" "clean_doc env name raw" "set_order env [] = []"
  shows "quiet st st'"
proof -
  let ?r = "rewrite_doc env name raw"
  let ?c = "universal_newlines ?r"
  from assms(2) have c: "map_of (files st) (d @ [name]) = Some ?r"
    and ok: "list_all (candidate_ok env st) (srcset_urls ?c)"
    by (simp_all add: done_doc_def)
  from assms(3,4)
  have f: "list_all (\<lambda>pat. findall pat (srcset_local env (srcset_urls ?c) ?c) = [])
             (doc_patterns name)"
    by (simp add: clean_doc_def Let_def)
  from pattern_loop_settled[OF c refl ok f assms(5)] assms(1) show ?thesis
    by (simp add: process_file_as_loop)
qed

lemma quiet_done_doc: "quiet st st' \<Longrightarrow> done_doc env p raw st \<Longrightarrow> done_doc env p raw st'"
  by (simp add: done_doc_def quiet_candidate) (simp add: quiet_def)

text \<open>
  The turn of any name keeps a document that is done as it is and a document that is
  untouched so or done; the document's own turn leaves it done.
\<close>

lemma process_file_keeps_done:
  assumes "process_file env d name st = Inr st'" "done_doc env p raw st"
    and "doc_patterns (last p) \<noteq> []" "clean_doc env (last p) raw" "set_order env [] = []"
  shows "done_doc env p raw st'"
proof (cases "p = d @ [name]")
  case True
  with assms have "quiet st st'" using process_file_done[of env d name st st' raw] by simp
  from quiet_done_doc[OF this assms(2)] show ?thesis .
next
  case False
  from assms(2) have "map_of (files st) p = Some (rewrite_doc env (last p) raw)"
    by (simp add: done_doc_def)
  from process_file_other[OF assms(1) this False]
  have "map_of (files st') p = Some (rewrite_doc env (last p) raw)" .
  moreover from assms(2) keeps_candidates[OF process_file_keeps[OF assms(1)]]
  have "list_all (candidate_ok env st')
          (srcset_urls (universal_newlines (rewrite_doc env (last p) raw)))"
    by (simp add: done_doc_def)
  ultimately show ?thesis by (simp add: done_doc_def)
qed

lemma process_file_own_turn:
  assumes "process_file env d name st = Inr st'" "resolved st'"
    and "untouched (d @ [name]) raw st \<or> done_doc env (d @ [name]) raw st"
    and "doc_patterns name \<noteq> []" "clean_doc env name raw" "set_order env [] = []"
  shows "done_doc env (d @ [name]) raw st'"
  using assms(3)
proof
  assume "untouched (d @ [name]) raw st"
  from process_file_first_visit[OF assms(1,2) this assms(4,5)] show ?thesis .
next
  assume "done_doc env (d @ [name]) raw st"
  from process_file_keeps_done[OF assms(1) this] assms(4,5,6) show ?thesis by simp
qed

lemma process_file_other_turn:
  assumes "process_file env d name st = Inr st'" "p \<noteq> d @ [name]" "untouched p raw st"
  shows "untouched p raw st'"
  using process_file_other[OF assms(1) _ assms(2)] assms(3) by (simp add: untouched_def)

text \<open>
  \<open>pending\<close>: the document is there, and is untouched or done if no download has failed;
  \<open>finished\<close>: it is done if no download has failed.
\<close>

definition pending :: "env \<Rightarrow> path \<Rightarrow> string \<Rightarrow> state \<Rightarrow> bool" where
  "pending env p raw s =
     (map_of (files s) p \<noteq> None
      \<and> (resolved s \<longrightarrow> untouched p raw s \<or> done_doc env p raw s))"

definition finished :: "env \<Rightarrow> path \<Rightarrow> string \<Rightarrow> state \<Rightarrow> bool" where
  "finished env p raw s = (resolved s \<longrightarrow> done_doc env p raw s)"

lemma process_file_pending:
  assumes "process_file env d name st = Inr st'" "pending env p raw st"
    and "doc_patterns (last p) \<noteq> []" "clean_doc env (last p) raw" "set_order env [] = []"
  shows "pending env p raw st'"
proof -
  from process_file_keeps[OF assms(1)] assms(2) have f: "map_of (files st') p \<noteq> None"
    by (simp add: keeps_def pending_def)
  have "untouched p raw st' \<or> done_doc env p raw st'" if r: "resolved st'"
  proof -
    from process_file_out[OF assms(1)] r have "resolved st" by (rule resolved_prefix)
    with assms(2) have j: "untouched p raw st \<or> done_doc env p raw st"
      by (simp add: pending_def)
    show ?thesis
    proof (cases "p = d @ [name]")
      case True
      with process_file_own_turn[OF assms(1) r, of raw] j assms(3,4,5) show ?thesis by simp
    next
      case False
      from j show ?thesis
      proof
        assume "untouched p raw st"
        from process_file_other_turn[OF assms(1) False this] show ?thesis by simp
      next
        assume "done_doc env p raw st"
        from process_file_keeps_done[OF assms(1) this assms(3,4,5)] show ?thesis by simp
      qed
    qed
  qed
  with f show ?thesis by (simp add: pending_def)
qed

lemma process_file_finished:
  assumes "process_file env d name st = Inr st'" "finished env p raw st"
    and "doc_patterns (last p) \<noteq> []" "clean_doc env (last p) raw" "set_order env [] = []"
  shows "finished env p raw st'"
proof -
  have "done_doc env p raw st'" if r: "resolved st'"
  proof -
    from process_file_out[OF assms(1)] r have "resolved st" by (rule resolved_prefix)
    with assms(2) have "done_doc env p raw st" by (simp add: finished_def)
    from process_file_keeps_done[OF assms(1) this assms(3,4,5)] show ?thesis .
  qed
  then show ?thesis by (simp add: finished_def)
qed

lemma process_file_hit:
  assumes "process_file env d name st = Inr st'" "pending env (d @ [name]) raw st"
    and "doc_patterns name \<noteq> []" "clean_doc env name raw" "set_order env [] = []"
  shows "finished env (d @ [name]) raw st'"
proof -
  have "done_doc env (d @ [name]) raw st'" if r: "resolved st'"
  proof -
    from process_file_out[OF assms(1)] r have "resolved st" by (rule resolved_prefix)
    with assms(2) have "untouched (d @ [name]) raw st \<or> done_doc env (d @ [name]) raw st"
      by (simp add: pending_def)
    from process_file_own_turn[OF assms(1) r this assms(3,4,5)] show ?thesis .
  qed
  then show ?thesis by (simp add: finished_def)
qed

text \<open>
  A loop comes to every element of its list: what holds at the start and is kept by
  every turn holds when the element's turn comes, and what this turn brings about and
  every turn keeps holds at the end.
\<close>

lemma for_each_reaches:
  assumes "for_each body xs a = Inr b" "x \<in> set xs" "P a"
    and step: "\<And>y s s'. P s \<Longrightarrow> body y s = Inr s' \<Longrightarrow> P s'"
    and hit: "\<And>s s'. P s \<Longrightarrow> body x s = Inr s' \<Longrightarrow> Q s'"
    and rest: "\<And>y s s'. Q s \<Longrightarrow> body y s = Inr s' \<Longrightarrow> Q s'"
  shows "Q b"
  using assms(1,2,3)
proof (induction xs arbitrary: a)
  case Nil
  then show ?case by simp
next
  case (Cons y ys)
  from Cons.prems(1) obtain a' where a': "body y a = Inr a'" "for_each body ys a' = Inr b"
    by (auto split: sum.splits)
  show ?case
  proof (cases "x = y")
    case True
    with a'(1) have "body x a = Inr a'" by simp
    from hit[OF Cons.prems(3) this] have "Q a'" .
    with a'(2) show ?thesis
      by (rule for_each_invariant[where P = Q]) (auto intro: rest)
  next
    case False
    with Cons.prems(2) have "x \<in> set ys" by simp
    from Cons.IH[OF a'(2) this step[OF Cons.prems(3) a'(1)]] show ?thesis .
  qed
qed

lemma process_dir_pending:
  assumes "process_dir env d st = Inr st'" "pending env p raw st"
    and "doc_patterns (last p) \<noteq> []" "clean_doc env (last p) raw" "set_order env [] = []"
  shows "pending env p raw st'"
  using assms(1)[unfolded process_dir_def] assms(2)
proof (rule for_each_invariant[where P = "pending env p raw"])
  fix x a a'
  assume "pending env p raw a" "process_file env d x a = Inr a'"
  then show "pending env p raw a'"
    using process_file_pending[of env d x a a' p raw] assms(3,4,5) by simp
qed

lemma process_dir_finished:
  assumes "process_dir env d st = Inr st'" "finished env p raw st"
    and "doc_patterns (last p) \<noteq> []" "clean_doc env (last p) raw" "set_order env [] = []"
  shows "finished env p raw st'"
  using assms(1)[unfolded process_dir_def] assms(2)
proof (rule for_each_invariant[where P = "finished env p raw"])
  fix x a a'
  assume "finished env p raw a" "process_file env d x a = Inr a'"
  then show "finished env p raw a'"
    using process_file_finished[of env d x a a' p raw] assms(3,4,5) by simp
qed

lemma process_dir_hit:
  assumes "process_dir env d st = Inr st'" "pending env (d @ [name]) raw st"
    and "doc_patterns name \<noteq> []" "clean_doc env name raw" "set_order env [] = []"
  shows "finished env (d @ [name]) raw st'"
proof (rule for_each_reaches[OF assms(1)[unfolded process_dir_def], where x = name
      and P = "pending env (d @ [name]) raw" and Q = "finished env (d @ [name]) raw"])
  from assms(2) have "map_of (files st) (d @ [name]) \<noteq> None" by (simp add: pending_def)
  then show "name \<in> set (listdir st d)" by (rule listdir_member)
next
  show "pending env (d @ [name]) raw st" by (rule assms(2))
next
  fix y s s'
  assume "pending env (d @ [name]) raw s" "process_file env d y s = Inr s'"
  then show "pending env (d @ [name]) raw s'"
    using process_file_pending[of env d y s s' "d @ [name]" raw] assms(3,4,5) by simp
next
  fix s s'
  assume "pending env (d @ [name]) raw s" "process_file env d name s = Inr s'"
  then show "finished env (d @ [name]) raw s'"
    using process_file_hit[of env d name s s' raw] assms(3,4,5) by simp
next
  fix y s s'
  assume "finished env (d @ [name]) raw s" "process_file env d y s = Inr s'"
  then show "finished env (d @ [name]) raw s'"
    using process_file_finished[of env d y s s' "d @ [name]" raw] assms(3,4,5) by simp
qed

lemma process_files_finishes:
  assumes "process_files env st = Inr st'" "pending env (d @ [name]) raw st"
    and "d = [] \<or> d \<in> set (walk_order env (dirs st))"
    and "doc_patterns name \<noteq> []" "clean_doc env name raw" "set_order env [] = []"
  shows "finished env (d @ [name]) raw st'"
proof (rule for_each_reaches[OF assms(1)[unfolded process_files_def], where x = d
      and P = "pending env (d @ [name]) raw" and Q = "finished env (d @ [name]) raw"])
  from assms(3) show "d \<in> set ([] # filter (\<lambda>d. d \<noteq> []) (walk_order env (dirs st)))"
    by auto
next
  show "pending env (d @ [name]) raw st" by (rule assms(2))
next
  fix y s s'
  assume "pending env (d @ [name]) raw s" "process_dir env y s = Inr s'"
  then show "pending env (d @ [name]) raw s'"
    using process_dir_pending[of env y s s' "d @ [name]" raw] assms(4,5,6) by simp
next
  fix s s'
  assume "pending env (d @ [name]) raw s" "process_dir env d s = Inr s'"
  then show "finished env (d @ [name]) raw s'"
    using process_dir_hit[of env d s s' name raw] assms(4,5,6) by simp
next
  fix y s s'
  assume "finished env (d @ [name]) raw s" "process_dir env y s = Inr s'"
  then show "finished env (d @ [name]) raw s'"
    using process_dir_finished[of env y s s' "d @ [name]" raw] assms(4,5,6) by simp
qed

text \<open>
  The tree that the first run leaves is settled, when no download has failed, the
  documents of the tree at the start are clean, the walk comes to every directory and
  no document has been downloaded.
\<close>

lemma first_run_settles:
  assumes run: "main env st0 = Inr st1" and res: "resolved st1"
    and cl: "clean env st0" and tree: "in_tree st0"
    and walk: "\<forall>ds. set ds \<subseteq> set (walk_order env ds)"
    and new: "no_new_documents st0 st1" and so: "set_order env [] = []"
  shows "settled env st1"
proof -
  from run obtain s0 where s0: "startup st0 = Inr s0" "process_files env s0 = Inr st1"
    by (auto simp: main_def split: sum.splits)
  from startup_keeps[OF s0(1)]
  have f0: "files s0 = files st0" and d0: "set (dirs st0) \<subseteq> set (dirs s0)" by simp_all
  have "settled_doc env st1 (last p) (universal_newlines raw1)"
    if p: "p \<in> set (map fst (files st1))" and raw1: "map_of (files st1) p = Some raw1"
    for p raw1
  proof (cases "doc_patterns (last p) = []")
    case True
    then show ?thesis by (simp add: settled_doc_def)
  next
    case False
    from new p False have "map_of (files st0) p \<noteq> None"
      by (auto simp: no_new_documents_def list_all_iff split: if_splits)
    then obtain raw where raw: "map_of (files st0) p = Some raw" by auto
    then have mem: "(p, raw) \<in> set (files st0)" by (rule map_of_SomeD)
    with cl have c: "clean_doc env (last p) raw" by (auto simp: clean_def list_all_iff)
    from mem have "p \<in> set (map fst (files st0))" by force
    with tree have ne: "p \<noteq> []" and dir: "is_dir st0 (butlast p)"
      by (auto simp: in_tree_def list_all_iff)
    from ne have pp: "butlast p @ [last p] = p" by simp
    from dir d0 walk have w: "butlast p = [] \<or> butlast p \<in> set (walk_order env (dirs s0))"
      by (auto simp: is_dir_def)
    from raw f0 have "pending env (butlast p @ [last p]) raw s0"
      by (simp add: pending_def untouched_def pp)
    from process_files_finishes[OF s0(2) this w False c so] res
    have "done_doc env p raw st1" by (simp add: finished_def pp)
    with raw1 have r: "raw1 = rewrite_doc env (last p) raw"
      and ok: "list_all (candidate_ok env st1) (srcset_urls (universal_newlines raw1))"
      by (simp_all add: done_doc_def)
    from c False r
    have "list_all (\<lambda>pat. findall pat (srcset_local env (srcset_urls (universal_newlines raw1))
                                        (universal_newlines raw1)) = [])
            (doc_patterns (last p))"
      by (simp add: clean_doc_def Let_def)
    with ok False show ?thesis by (simp add: settled_doc_def)
  qed
  then show ?thesis
    by (auto simp: settled_def list_all_iff split: option.splits)
qed

text \<open>
  C1. Let the first run end with no download failed, on a tree whose documents are clean
  (the replacements join no new URL) and whose files are in directories the walk comes
  to, and let it have downloaded no HTML or CSS file. Then the tree it leaves is
  settled, and the second run ends normally, sends no request, writes no file and prints
  nothing but lines \<open>Already exists\<close>.
\<close>

theorem second_run_is_quiet:
  "main env st0 = Inr st1 \<and> resolved st1 \<and> clean env st0 \<and> in_tree st0
   \<and> (\<forall>ds. set ds \<subseteq> set (walk_order env ds)) \<and> no_new_documents st0 st1
   \<and> set_order env [] = []
   \<longrightarrow> settled env st1 \<and> (\<exists>st2. main env st1 = Inr st2 \<and> quiet st1 st2)"
proof
  assume a: "main env st0 = Inr st1 \<and> resolved st1 \<and> clean env st0 \<and> in_tree st0
   \<and> (\<forall>ds. set ds \<subseteq> set (walk_order env ds)) \<and> no_new_documents st0 st1
   \<and> set_order env [] = []"
  then have s: "settled env st1" using first_run_settles[of env st0 st1] by blast
  from a have "startup st1 = Inr st1" using main_then_startup by blast
  then have "main env st1 = process_files env st1" by (simp add: main_def)
  with a s show "settled env st1 \<and> (\<exists>st2. main env st1 = Inr st2 \<and> quiet st1 st2)"
    using process_files_settled[of env st1] by simp
qed

text \<open>
  A project with a page whose image is referenced directly, a page whose image is
  referenced in a srcset only and a style sheet in a directory of its own, and what a
  run leaves of it.
\<close>

definition st_site :: state where
  "st_site = \<lparr>dirs = [[''css'']],
     files = [([''index.html''], ''<img src=\"http://h/p.png\">''),
              ([''gallery.html''], ''<img srcset=\"http://h/a.png 1x\">''),
              ([''css'', ''site.css''], ''a{b:url(http://h/f.woff)}'')],
     requests = [], out = []\<rparr>"

definition st_site_done :: state where
  "st_site_done = \<lparr>dirs = [[''css''], assets_folder, fonts_folder],
     files = [([''index.html''], ''<img src=\"/assets/p.png\">''),
              ([''gallery.html''], ''<img srcset=\"http://h/a.png 1x\">''),
              ([''css'', ''site.css''], ''a{b:url(/assets/fonts/f.woff)}''),
              ([''assets'', ''p.png''], ''DATA''),
              ([''assets'', ''a.png''], ''DATA''),
              ([''assets'', ''fonts'', ''f.woff''], ''DATA'')],
     requests = [''http://h/p.png'', ''http://h/a.png'', ''http://h/f.woff''],
     out = [Downloaded ''p.png'', Updated [''index.html''], Downloaded ''a.png'',
            AlreadyExists ''a.png'', AlreadyExists ''a.png'', Downloaded ''f.woff'',
            Updated [''css'', ''site.css'']]\<rparr>"

theorem second_run_is_quiet_witness:
  "main env_ok st_site = Inr st_site_done
   \<and> resolved st_site_done
   \<and> clean env_ok st_site
   \<and> in_tree st_site
   \<and> (\<forall>ds. set ds \<subseteq> set (walk_order env_ok ds))
   \<and> no_new_documents st_site st_site_done
   \<and> set_order env_ok [] = []
   \<and> settled env_ok st_site_done
   \<and> main env_ok st_site_done
       = Inr (st_site_done\<lparr>out := out st_site_done
                @ [AlreadyExists ''a.png'', AlreadyExists ''a.png'', AlreadyExists ''a.png'']\<rparr>)
   \<and> quiet st_site_done
        (st_site_done\<lparr>out := out st_site_done
           @ [AlreadyExists ''a.png'', AlreadyExists ''a.png'', AlreadyExists ''a.png'']\<rparr>)"
proof -
  let ?s2 = "st_site_done\<lparr>out := out st_site_done
           @ [AlreadyExists ''a.png'', AlreadyExists ''a.png'', AlreadyExists ''a.png'']\<rparr>"
  have 1: "main env_ok st_site = Inr st_site_done" by code_simp
  have 2: "resolved st_site_done" by code_simp
  have 3: "clean env_ok st_site" by code_simp
  have 4: "in_tree st_site" by code_simp
  have 5: "\<forall>ds. set ds \<subseteq> set (walk_order env_ok ds)"
    by (simp add: env_ok_def env_with_def)
  have 6: "no_new_documents st_site st_site_done" by code_simp
  have 7: "set_order env_ok [] = []" by code_simp
  have 8: "main env_ok st_site_done = Inr ?s2" by code_simp
  from second_run_is_quiet[of env_ok st_site st_site_done] 1 2 3 4 5 6 7
  have s: "settled env_ok st_site_done"
    and "\<exists>st2. main env_ok st_site_done = Inr st2 \<and> quiet st_site_done st2"
    by blast+
  then obtain st2 where "main env_ok st_site_done = Inr st2" "quiet st_site_done st2"
    by blast
  with 8 have "quiet st_site_done ?s2" by simp
  with 1 2 3 4 5 6 7 8 s show ?thesis by blast
qed

text \<open>
  A style sheet in which the text of a resolved URL occurs a second time after \<open>http:/\<close>:
  the first run resolves its only reference, and its replacement leaves a new URL,
  which the second run fetches and rewrites. The style sheet is not clean.
\<close>

definition st_css :: state where
  "st_css = \<lparr>dirs = [],
     files = [([''a.css''],
               ''a{b:url(http://h/x.png)} c{d:url(http:/http://h/x.png/y.png)}'')],
     requests = [], out = []\<rparr>"

definition st_css_done :: state where
  "st_css_done = \<lparr>dirs = [assets_folder, fonts_folder],
     files = [([''a.css''], ''a{b:url(/assets/x.png)} c{d:url(http://assets/x.png/y.png)}''),
              ([''assets'', ''x.png''], ''DATA'')],
     requests = [''http://h/x.png''],
     out = [Downloaded ''x.png'', Updated [''a.css'']]\<rparr>"

theorem second_run_counterexample:
  "findall css_asset_pattern ''a{b:url(http://h/x.png)} c{d:url(http:/http://h/x.png/y.png)}''
     = [''http://h/x.png'']
   \<and> main env_ok st_css = Inr st_css_done
   \<and> resolved st_css_done
   \<and> clean env_ok st_css = False
   \<and> main env_ok st_css_done
      = Inr \<lparr>dirs = [assets_folder, fonts_folder],
             files = [([''a.css''], ''a{b:url(/assets/x.png)} c{d:url(/assets/y.png)}''),
                      ([''assets'', ''x.png''], ''DATA''),
                      ([''assets'', ''y.png''], ''DATA'')],
             requests = [''http://h/x.png'', ''http://assets/x.png/y.png''],
             out = [Downloaded ''x.png'', Updated [''a.css''],
                    Downloaded ''y.png'', Updated [''a.css'']]\<rparr>"
proof -
  have 1: "findall css_asset_pattern
        ''a{b:url(http://h/x.png)} c{d:url(http:/http://h/x.png/y.png)}''
     = [''http://h/x.png'']" by code_simp
  have 2: "main env_ok st_css = Inr st_css_done" by code_simp
  have 3: "resolved st_css_done" by code_simp
  have 4: "clean env_ok st_css = False" by code_simp
  have 5: "main env_ok st_css_done
      = Inr \<lparr>dirs = [assets_folder, fonts_folder],
             files = [([''a.css''], ''a{b:url(/assets/x.png)} c{d:url(/assets/y.png)}''),
                      ([''assets'', ''x.png''], ''DATA''),
                      ([''assets'', ''y.png''], ''DATA'')],
             requests = [''http://h/x.png'', ''http://assets/x.png/y.png''],
             out = [Downloaded ''x.png'', Updated [''a.css''],
                    Downloaded ''y.png'', Updated [''a.css'']]\<rparr>" by code_simp
  from 1 2 3 4 5 show ?thesis by blast
qed

end
